theory Spec2Isabelle
  imports Main "HOL-Library.Char_ord" "HOL-Library.List_Lexorder" "HOL-Library.Sublist"
    "HOL-Library.AList" "HOL-Library.Multiset"
begin

section \<open>Go strings\<close>

text \<open>
  A Go string is a sequence of bytes, modelled as a \<^typ>\<open>string\<close>.  The library functions
  the program calls (package \<^verbatim>\<open>strings\<close>, \<^verbatim>\<open>path\<close>, \<^verbatim>\<open>sort\<close>) are modelled
  on ASCII text: \<^verbatim>\<open>camelCase\<close> replaces every rune outside \<^verbatim>\<open>[0-9a-zA-Z]\<close> by a space before
  \<^verbatim>\<open>strings.Title\<close> sees it, and every other argument of \<^verbatim>\<open>strings.Title\<close> is built from
  results of \<^verbatim>\<open>camelCase\<close> and ASCII literals.
\<close>

definition isAlnum :: "char \<Rightarrow> bool" where
  "isAlnum r = ((CHR ''0'' \<le> r \<and> r \<le> CHR ''9'') \<or> (CHR ''a'' \<le> r \<and> r \<le> CHR ''z'')
                \<or> (CHR ''A'' \<le> r \<and> r \<le> CHR ''Z''))"

definition toUpper :: "char \<Rightarrow> char" where
  "toUpper r = (if CHR ''a'' \<le> r \<and> r \<le> CHR ''z'' then char_of (of_char r - (32::nat)) else r)"

definition ToUpper :: "string \<Rightarrow> string" where
  "ToUpper s = map toUpper s"

text \<open>\<^verbatim>\<open>isSeparator\<close> of package strings: ASCII letters, digits and the underscore do not
  separate words, every other ASCII character does.\<close>

definition isSeparator :: "char \<Rightarrow> bool" where
  "isSeparator r = (\<not> (isAlnum r \<or> r = CHR ''_''))"

fun titleFrom :: "char \<Rightarrow> string \<Rightarrow> string" where
  "titleFrom prev [] = []"
| "titleFrom prev (r # rs) = (if isSeparator prev then toUpper r else r) # titleFrom r rs"

text \<open>\<^verbatim>\<open>strings.Title\<close>: the letter that begins a word is upper-cased; the scan starts with
  a space as the previous rune.\<close>

definition strings_Title :: "string \<Rightarrow> string" where
  "strings_Title s = titleFrom (CHR '' '') s"

definition HasPrefix :: "string \<Rightarrow> string \<Rightarrow> bool" where
  "HasPrefix s p = prefix p s"

definition HasSuffix :: "string \<Rightarrow> string \<Rightarrow> bool" where
  "HasSuffix s p = suffix p s"

definition TrimPrefix :: "string \<Rightarrow> string \<Rightarrow> string" where
  "TrimPrefix s p = (if HasPrefix s p then drop (length p) s else s)"

definition TrimSuffix :: "string \<Rightarrow> string \<Rightarrow> string" where
  "TrimSuffix s p = (if HasSuffix s p then take (length s - length p) s else s)"

text \<open>\<^verbatim>\<open>strings.Split(s, "/")\<close>: the empty string splits into one empty part.\<close>

fun Split :: "string \<Rightarrow> string list" where
  "Split [] = [[]]"
| "Split (c # cs) =
     (if c = CHR ''/'' then [] # Split cs
      else (case Split cs of [] \<Rightarrow> [[c]] | p # ps \<Rightarrow> (c # p) # ps))"

text \<open>Decimal rendering of the anonymous-object counter (\<^verbatim>\<open>%v\<close> of a non-negative int).\<close>

fun showNat :: "nat \<Rightarrow> string" where
  "showNat n = (if n < 10 then [char_of (48 + n)]
                else showNat (n div 10) @ [char_of (48 + n mod 10)])"

declare showNat.simps [simp del]

definition nl :: string where
  "nl = [CHR 0x0A]"

definition dq :: string where
  "dq = [CHR 0x22]"

definition bq :: string where
  "bq = [CHR 0x60]"

section \<open>camelCase\<close>

text \<open>The first two statements of \<^verbatim>\<open>camelCase\<close>: map every rune that is not an ASCII letter
  or digit to a space, title-case the words, delete the spaces.\<close>

definition caseName :: "string \<Rightarrow> string" where
  "caseName name =
     filter (\<lambda>r. r \<noteq> CHR '' '')
       (strings_Title (map (\<lambda>r. if isAlnum r then r else CHR '' '') name))"

text \<open>The two loops of \<^verbatim>\<open>camelCase\<close> return at the first suffix, then at the first prefix,
  that matches.\<close>

definition camelCase :: "string \<Rightarrow> string" where
  "camelCase name =
     (let cn = caseName name in
      case find (HasSuffix cn) [''Id'', ''Url'', ''Json'', ''Xml''] of
        Some sfx \<Rightarrow> TrimSuffix cn sfx @ ToUpper sfx
      | None \<Rightarrow>
          (case find (HasPrefix cn) [''Url'', ''Json'', ''Xml''] of
             Some pfx \<Rightarrow> ToUpper pfx @ TrimPrefix cn pfx
           | None \<Rightarrow> cn))"

text \<open>The specification's reading of the word rule, for comparison with \<^const>\<open>caseName\<close>:
  a character that is not alphanumeric is a word boundary; it is removed and the
  alphanumeric character after it is upper-cased.  The flag says whether a word starts here.\<close>

fun spec_boundary_words :: "bool \<Rightarrow> string \<Rightarrow> string" where
  "spec_boundary_words start [] = []"
| "spec_boundary_words start (r # rs) =
     (if isAlnum r then (if start then toUpper r else r) # spec_boundary_words False rs
      else spec_boundary_words True rs)"

section \<open>The schema model\<close>

datatype SchemaType = ANY | ARRAY | BOOLEAN | INTEGER | NUMBER | NULL | OBJECT | STRING

type_synonym addr = nat

record Schema =
  Title :: string
  ID :: string
  Type :: SchemaType
  Description :: string
  Definitions :: "(string \<times> addr) list option"
  Properties :: "(string \<times> addr) list option"
  PatternProperties :: "(string \<times> addr) list option"
  Ref :: string
  Items :: "addr option"

type_synonym store = "addr \<Rightarrow> Schema"

definition Name :: "Schema \<Rightarrow> string" where
  "Name schema = (if Title schema = [] then ID schema else Title schema)"

definition entries :: "(string \<times> addr) list option \<Rightarrow> (string \<times> addr) list" where
  "entries m = (case m of None \<Rightarrow> [] | Some kvs \<Rightarrow> kvs)"

datatype error =
    InvalidReferencePoint string
  | InvalidReferenceFile string string
  | NilDereference
  | InterfaceConversion
  | OpenFailed string
  | WriteFailed string
  | GofmtFailed

fun forEachO :: "('a \<Rightarrow> 's \<Rightarrow> 's option) \<Rightarrow> 'a list \<Rightarrow> 's \<Rightarrow> 's option" where
  "forEachO f [] s = Some s"
| "forEachO f (x # xs) s = (case f x s of None \<Rightarrow> None | Some s' \<Rightarrow> forEachO f xs s')"

fun forEachE :: "('a \<Rightarrow> 's \<Rightarrow> (error + 's) option) \<Rightarrow> 'a list \<Rightarrow> 's \<Rightarrow> (error + 's) option" where
  "forEachE f [] s = Some (Inr s)"
| "forEachE f (x # xs) s =
     (case f x s of None \<Rightarrow> None | Some (Inl e) \<Rightarrow> Some (Inl e) | Some (Inr s') \<Rightarrow> forEachE f xs s')"

definition thenE :: "(error + 's) option \<Rightarrow> ('s \<Rightarrow> (error + 't) option) \<Rightarrow> (error + 't) option" where
  "thenE r f = (case r of None \<Rightarrow> None | Some (Inl e) \<Rightarrow> Some (Inl e) | Some (Inr s) \<Rightarrow> f s)"

definition thenO :: "'s option \<Rightarrow> ('s \<Rightarrow> 't option) \<Rightarrow> 't option" where
  "thenO r f = (case r of None \<Rightarrow> None | Some s \<Rightarrow> f s)"

section \<open>Loading\<close>

definition getReferenceName :: "string \<Rightarrow> string" where
  "getReferenceName file = last (Split file)"

definition titleFromKey :: "string \<Rightarrow> addr \<Rightarrow> store \<Rightarrow> store" where
  "titleFromKey k v h = (if Name (h v) = [] then h(v := (h v)\<lparr>Title := k\<rparr>) else h)"

fun updateDefinitionTitles :: "nat \<Rightarrow> addr \<Rightarrow> store \<Rightarrow> store option" where
  "updateDefinitionTitles 0 schema h = None"
| "updateDefinitionTitles (Suc n) schema h =
     forEachO (\<lambda>(k, v) h. updateDefinitionTitles n v (titleFromKey k v h))
       (entries (Definitions (h schema))) h"

definition qualify :: "string \<Rightarrow> string \<Rightarrow> string" where
  "qualify reference ref =
     (if ref \<noteq> [] then
        (case Split ref of
           [] \<Rightarrow> ref
         | p # ps \<Rightarrow> if p = ''#'' then reference @ ref else ref)
      else ref)"

fun updateReferencePath :: "nat \<Rightarrow> string \<Rightarrow> addr \<Rightarrow> store \<Rightarrow> store option" where
  "updateReferencePath 0 reference schema h = None"
| "updateReferencePath (Suc n) reference schema h =
     thenO (forEachO (\<lambda>(k, v). updateReferencePath n reference v) (entries (Definitions (h schema))) h) (\<lambda>h.
     thenO (forEachO (\<lambda>(k, v). updateReferencePath n reference v) (entries (Properties (h schema))) h) (\<lambda>h.
     thenO (forEachO (\<lambda>(k, v). updateReferencePath n reference v) (entries (PatternProperties (h schema))) h) (\<lambda>h.
     thenO (case Items (h schema) of None \<Rightarrow> Some h | Some i \<Rightarrow> updateReferencePath n reference i h) (\<lambda>h.
     Some (h(schema := (h schema)\<lparr>Ref := qualify reference (Ref (h schema))\<rparr>))))))"

definition LoadSchema :: "nat \<Rightarrow> string \<Rightarrow> addr \<Rightarrow> store \<Rightarrow> store option" where
  "LoadSchema n reference schema h =
     thenO (updateDefinitionTitles n schema h) (updateReferencePath n reference schema)"

fun Load :: "nat \<Rightarrow> (string \<times> addr) list \<Rightarrow> (string \<times> addr) list \<times> store
               \<Rightarrow> ((string \<times> addr) list \<times> store) option" where
  "Load n [] (schemas, h) = Some (schemas, h)"
| "Load n ((file, schema) # files) (schemas, h) =
     (let reference = getReferenceName file in
      thenO (LoadSchema n reference schema h) (\<lambda>h.
        Load n files (AList.update reference schema schemas, h)))"

section \<open>Resolving references\<close>

datatype ctx = CtxSchema "addr option" | CtxMap "(string \<times> addr) list option"

definition asSchema :: "store \<Rightarrow> ctx \<Rightarrow> error + Schema" where
  "asSchema h c =
     (case c of
        CtxMap m \<Rightarrow> Inl InterfaceConversion
      | CtxSchema None \<Rightarrow> Inl NilDereference
      | CtxSchema (Some a) \<Rightarrow> Inr (h a))"

definition index :: "(string \<times> addr) list option \<Rightarrow> string \<Rightarrow> addr option" where
  "index m k = (case m of None \<Rightarrow> None | Some kvs \<Rightarrow> map_of kvs k)"

text \<open>One round of the loop over the path segments in \<^verbatim>\<open>resolveRefs\<close>.\<close>

definition walkStep :: "(string \<times> addr) list \<Rightarrow> store \<Rightarrow> string \<Rightarrow> ctx \<Rightarrow> string \<Rightarrow> error + ctx" where
  "walkStep schemas h reference c part =
     (if part = ''#'' then Inl (InvalidReferencePoint reference)
      else if HasSuffix part ''#'' then
        (case map_of schemas (butlast part) of
           None \<Rightarrow> Inl (InvalidReferenceFile reference (butlast part))
         | Some referenceSchema \<Rightarrow> Inr (CtxSchema (Some referenceSchema)))
      else if part = ''definitions'' then
        (case asSchema h c of Inl e \<Rightarrow> Inl e | Inr s \<Rightarrow> Inr (CtxMap (Definitions s)))
      else if part = ''properties'' then
        (case asSchema h c of Inl e \<Rightarrow> Inl e | Inr s \<Rightarrow> Inr (CtxMap (Properties s)))
      else if part = ''patternProperties'' then
        (case asSchema h c of Inl e \<Rightarrow> Inl e | Inr s \<Rightarrow> Inr (CtxMap (PatternProperties s)))
      else if part = ''items'' then
        (case asSchema h c of Inl e \<Rightarrow> Inl e | Inr s \<Rightarrow> Inr (CtxSchema (Items s)))
      else
        (case c of
           CtxMap m \<Rightarrow> Inr (CtxSchema (index m part))
         | CtxSchema p \<Rightarrow> Inr c))"

fun walk :: "(string \<times> addr) list \<Rightarrow> store \<Rightarrow> string \<Rightarrow> ctx \<Rightarrow> string list \<Rightarrow> error + ctx" where
  "walk schemas h reference c [] = Inr c"
| "walk schemas h reference c (part # parts) =
     (case walkStep schemas h reference c part of
        Inl e \<Rightarrow> Inl e
      | Inr c \<Rightarrow> walk schemas h reference c parts)"

text \<open>The nodes whose fields the walk reads: a round for one of the four field names reads
  the node that is the context.\<close>

definition reads :: "ctx \<Rightarrow> string \<Rightarrow> addr list" where
  "reads c part =
     (if part \<in> {''definitions'', ''properties'', ''patternProperties'', ''items''} then
        (case c of CtxSchema (Some a) \<Rightarrow> [a] | _ \<Rightarrow> [])
      else [])"

fun visited :: "(string \<times> addr) list \<Rightarrow> store \<Rightarrow> string \<Rightarrow> ctx \<Rightarrow> string list \<Rightarrow> addr list" where
  "visited schemas h reference c [] = []"
| "visited schemas h reference c (part # parts) =
     reads c part @
     (case walkStep schemas h reference c part of
        Inl e \<Rightarrow> []
      | Inr c \<Rightarrow> visited schemas h reference c parts)"

definition assign :: "store \<Rightarrow> addr \<Rightarrow> ctx \<Rightarrow> error + store" where
  "assign h schema c =
     (case c of
        CtxSchema (Some cast) \<Rightarrow> Inr (h(schema := h cast))
      | CtxSchema None \<Rightarrow> Inl NilDereference
      | CtxMap m \<Rightarrow> Inr h)"

fun resolveRefs :: "nat \<Rightarrow> (string \<times> addr) list \<Rightarrow> string \<Rightarrow> addr \<Rightarrow> store \<Rightarrow> (error + store) option" where
  "resolveRefs 0 schemas reference schema h = None"
| "resolveRefs (Suc n) schemas reference schema h =
     thenE (if Ref (h schema) \<noteq> [] then
              (case walk schemas h reference (CtxSchema (Some schema)) (Split (Ref (h schema))) of
                 Inl e \<Rightarrow> Some (Inl e)
               | Inr c \<Rightarrow>
                   (case assign h schema c of
                      Inl e \<Rightarrow> Some (Inl e)
                    | Inr h \<Rightarrow> resolveRefs n schemas reference schema h))
            else Some (Inr h)) (\<lambda>h.
     thenE (forEachE (\<lambda>(k, v). resolveRefs n schemas reference v) (entries (Definitions (h schema))) h) (\<lambda>h.
     thenE (forEachE (\<lambda>(k, v). resolveRefs n schemas reference v) (entries (Properties (h schema))) h) (\<lambda>h.
     thenE (forEachE (\<lambda>(k, v). resolveRefs n schemas reference v) (entries (PatternProperties (h schema))) h) (\<lambda>h.
     (case Items (h schema) of None \<Rightarrow> Some (Inr h) | Some i \<Rightarrow> resolveRefs n schemas reference i h)))))"

section \<open>Assigning names\<close>

text \<open>\<^verbatim>\<open>fmt.Sprintf("AnonymousObject%v", anonymousObjectCount)\<close>\<close>

definition anonymousName :: "nat \<Rightarrow> string" where
  "anonymousName k = ''AnonymousObject'' @ showNat k"

definition titleItems :: "addr \<Rightarrow> addr \<Rightarrow> store \<times> nat \<Rightarrow> store \<times> nat" where
  "titleItems schema i st =
     (case st of (h, anonymousObjectCount) \<Rightarrow>
        if Name (h i) = [] then
          (let (h, anonymousObjectCount) =
                 (if Name (h schema) = [] then
                    (h(schema := (h schema)\<lparr>Title := anonymousName (anonymousObjectCount + 1)\<rparr>),
                     anonymousObjectCount + 1)
                  else (h, anonymousObjectCount))
           in (h(i := (h i)\<lparr>Title := Name (h schema) @ ''Item''\<rparr>), anonymousObjectCount))
        else (h, anonymousObjectCount))"

fun setTitle :: "nat \<Rightarrow> string \<Rightarrow> addr \<Rightarrow> store \<times> nat \<Rightarrow> (store \<times> nat) option" where
  "setTitle 0 reference schema st = None"
| "setTitle (Suc n) reference schema st =
     thenO (forEachO (\<lambda>(k, v) (h, c). setTitle n reference v (titleFromKey k v h, c))
              (entries (Definitions (fst st schema))) st) (\<lambda>st.
     thenO (forEachO (\<lambda>(k, v) (h, c). setTitle n reference v (titleFromKey k v h, c))
              (entries (Properties (fst st schema))) st) (\<lambda>st.
     thenO (forEachO (\<lambda>(k, v) (h, c). setTitle n reference v (titleFromKey k v h, c))
              (entries (PatternProperties (fst st schema))) st) (\<lambda>st.
     (case Items (fst st schema) of
        None \<Rightarrow> Some st
      | Some i \<Rightarrow> setTitle n reference i (titleItems schema i st)))))"

definition ParseSchema :: "nat \<Rightarrow> (string \<times> addr) list \<Rightarrow> string \<Rightarrow> addr \<Rightarrow> store \<times> nat
                             \<Rightarrow> (error + store \<times> nat) option" where
  "ParseSchema n schemas reference schema st =
     thenE (resolveRefs n schemas reference schema (fst st)) (\<lambda>h.
       (case setTitle n reference schema (h, snd st) of None \<Rightarrow> None | Some st \<Rightarrow> Some (Inr st)))"

section \<open>Emission\<close>

record SchemaProcessor =
  OutputDir :: string
  PackageName :: string
  Overwrite :: bool
  Stdout :: bool
  Fmt :: bool
  Comment :: bool

datatype event =
    Print string
  | GofmtPipe string
  | LogPrintf string
  | Create string
  | Write string string
  | GofmtFile string

record env =
  MarshalIndent :: "store \<Rightarrow> addr \<Rightarrow> string"
  Join :: "string \<Rightarrow> string \<Rightarrow> string"
  Args :: string
  present :: "string \<Rightarrow> bool"
  open_ok :: "string \<Rightarrow> bool"
  write_ok :: "string \<Rightarrow> string \<Rightarrow> bool"
  gofmt_ok :: "string \<Rightarrow> bool"

record pstate =
  processed :: "string \<Rightarrow> bool option"
  events :: "event list"

definition emit :: "event \<Rightarrow> pstate \<Rightarrow> pstate" where
  "emit e st = st\<lparr>events := events st @ [e]\<rparr>"

definition preamble :: "SchemaProcessor \<Rightarrow> env \<Rightarrow> string" where
  "preamble s ev =
     ''package '' @ PackageName s @ nl @ nl
     @ ''/////////////////////////////////////////////////////////////////////////'' @ nl
     @ ''// This Code is Generated by SlipScheme Project:'' @ nl
     @ ''// https://github.com/zhongjie-cai/slipscheme'' @ nl
     @ ''// '' @ nl
     @ ''// Generated with command:'' @ nl
     @ ''// '' @ Args ev @ nl
     @ ''/////////////////////////////////////////////////////////////////////////'' @ nl
     @ ''//                            DO NOT EDIT                              //'' @ nl
     @ ''/////////////////////////////////////////////////////////////////////////'' @ nl
     @ nl"

definition writeGoCode :: "SchemaProcessor \<Rightarrow> env \<Rightarrow> string \<Rightarrow> string \<Rightarrow> pstate \<Rightarrow> error option \<times> pstate" where
  "writeGoCode s ev typeName code st =
     (if processed st typeName = Some True then (None, st)
      else
        let st = st\<lparr>processed := (processed st)(typeName \<mapsto> True)\<rparr> in
        if Stdout s then
          (if Fmt s then
             (if gofmt_ok ev code then None else Some GofmtFailed, emit (GofmtPipe code) st)
           else (None, emit (Print code) st))
        else
          let file = Join ev (OutputDir s) (typeName @ ''.go'') in
          if \<not> Overwrite s \<and> (present ev file \<or> Create file \<in> set (events st)) then
            (None, emit (LogPrintf file) st)
          else if \<not> open_ok ev file then (Some (OpenFailed file), st)
          else
            let st = emit (Create file) st in
            if \<not> write_ok ev file (preamble s ev) then (Some (WriteFailed file), st)
            else
              let st = emit (Write file (preamble s ev)) st in
              if \<not> write_ok ev file code then (Some (WriteFailed file), st)
              else
                let st = emit (Write file code) st in
                if Fmt s then
                  (if gofmt_ok ev (preamble s ev @ code) then None else Some GofmtFailed,
                   emit (GofmtFile file) st)
                else (None, st))"

text \<open>A sequence of emission requests, as one run of the program makes them: the first
  error ends the run.\<close>

fun emitAll :: "SchemaProcessor \<Rightarrow> env \<Rightarrow> (string \<times> string) list \<Rightarrow> pstate \<Rightarrow> error option \<times> pstate" where
  "emitAll s ev [] st = (None, st)"
| "emitAll s ev ((typeName, code) # requests) st =
     (case writeGoCode s ev typeName code st of
        (Some e, st) \<Rightarrow> (Some e, st)
      | (None, st) \<Rightarrow> emitAll s ev requests st)"

section \<open>Synthesizing types\<close>

definition structComment :: "SchemaProcessor \<Rightarrow> env \<Rightarrow> store \<Rightarrow> addr \<Rightarrow> string \<Rightarrow> string" where
  "structComment s ev h schema typeName =
     (if \<not> Comment s then []
      else ''// '' @ typeName @ '' defined from schema:'' @ nl @ ''// '' @ MarshalIndent ev h schema @ nl)"

definition fieldLine :: "string \<Rightarrow> string \<Rightarrow> string" where
  "fieldLine k subTypeName =
     ''    '' @ camelCase k @ '' '' @ subTypeName @ '' '' @ bq @ ''json:'' @ dq @ k @ '',omitempty'' @ dq
     @ '' yaml:'' @ dq @ k @ '',omitempty'' @ dq @ bq @ nl"

fun forKeys :: "('k \<Rightarrow> 'acc \<Rightarrow> pstate \<Rightarrow> ((error + 'acc) \<times> pstate) option) \<Rightarrow> 'k list
                 \<Rightarrow> 'acc \<Rightarrow> pstate \<Rightarrow> ((error + 'acc) \<times> pstate) option" where
  "forKeys f [] acc st = Some (Inr acc, st)"
| "forKeys f (k # ks) acc st =
     (case f k acc st of
        None \<Rightarrow> None
      | Some (Inl e, st) \<Rightarrow> Some (Inl e, st)
      | Some (Inr acc, st) \<Rightarrow> forKeys f ks acc st)"

definition thenP :: "((error + 'a) \<times> pstate) option \<Rightarrow> ('a \<Rightarrow> pstate \<Rightarrow> ((error + 'b) \<times> pstate) option)
                       \<Rightarrow> ((error + 'b) \<times> pstate) option" where
  "thenP r f =
     (case r of None \<Rightarrow> None | Some (Inl e, st) \<Rightarrow> Some (Inl e, st) | Some (Inr x, st) \<Rightarrow> f x st)"

definition afterWrite :: "string \<Rightarrow> error option \<times> pstate \<Rightarrow> ((error + string) \<times> pstate) option" where
  "afterWrite typeName r = (case r of (None, st) \<Rightarrow> Some (Inr typeName, st) | (Some e, st) \<Rightarrow> Some (Inl e, st))"

text \<open>The bodies of the two loops of \<^verbatim>\<open>processSchema\<close> over the sorted keys; \<open>process\<close>
  is the recursive call.  A key that the map does not hold yields the nil pointer.\<close>

definition fieldStep :: "(addr option \<Rightarrow> pstate \<Rightarrow> ((error + string) \<times> pstate) option)
    \<Rightarrow> (string \<times> addr) list \<Rightarrow> string \<Rightarrow> string \<Rightarrow> pstate \<Rightarrow> ((error + string) \<times> pstate) option" where
  "fieldStep process props k typeData st =
     thenP (process (map_of props k) st) (\<lambda>subTypeName st.
       Some (Inr (typeData @ fieldLine k subTypeName), st))"

definition patternStep :: "(addr option \<Rightarrow> pstate \<Rightarrow> ((error + string) \<times> pstate) option)
    \<Rightarrow> SchemaProcessor \<Rightarrow> env \<Rightarrow> store \<Rightarrow> addr \<Rightarrow> (string \<times> addr) list
    \<Rightarrow> string \<Rightarrow> string \<Rightarrow> pstate \<Rightarrow> ((error + string) \<times> pstate) option" where
  "patternStep process s ev h schema pats k typeName st =
     thenP (process (map_of pats k) st) (\<lambda>subTypeName st.
       if strings_Title subTypeName = subTypeName then
         (let typeName = TrimPrefix (subTypeName @ ''Map'') ''*'' in
          afterWrite typeName
            (writeGoCode s ev typeName
               (structComment s ev h schema typeName @ ''type '' @ typeName
                @ '' map[string]'' @ subTypeName @ nl @ nl) st))
       else Some (Inr (''map[string]'' @ subTypeName), st))"

fun processSchema :: "nat \<Rightarrow> SchemaProcessor \<Rightarrow> env \<Rightarrow> store \<Rightarrow> addr option \<Rightarrow> pstate
                        \<Rightarrow> ((error + string) \<times> pstate) option" where
  "processSchema 0 s ev h p st = None"
| "processSchema (Suc n) s ev h None st = Some (Inl NilDereference, st)"
| "processSchema (Suc n) s ev h (Some schema) st =
     (if Type (h schema) = OBJECT then
        (let typeName = camelCase (Name (h schema)) in
         case Properties (h schema) of
           Some props \<Rightarrow>
             thenP (forKeys (fieldStep (processSchema n s ev h) props) (sort (map fst props))
                      (structComment s ev h schema typeName @ ''type '' @ typeName
                       @ '' struct {'' @ nl) st)
               (\<lambda>typeData st.
                  thenP (afterWrite typeName (writeGoCode s ev typeName (typeData @ ''}'' @ nl @ nl) st))
                    (\<lambda>typeName st. Some (Inr (''*'' @ typeName), st)))
         | None \<Rightarrow>
             (case PatternProperties (h schema) of
                Some pats \<Rightarrow>
                  forKeys (patternStep (processSchema n s ev h) s ev h schema pats)
                    (sort (map fst pats)) typeName st
              | None \<Rightarrow> Some (Inr ''map[string]interface{}'', st)))
      else if Type (h schema) = ARRAY then
        thenP (processSchema n s ev h (Items (h schema)) st) (\<lambda>subTypeName st.
          let typeName = camelCase (Name (h schema));
              typeName =
                (if typeName = [] \<and> strings_Title subTypeName = subTypeName then
                   (if HasSuffix subTypeName ''s'' then subTypeName @ ''es'' else subTypeName @ ''s'')
                 else typeName)
          in if typeName \<noteq> [] then
               (let typeName = TrimPrefix typeName ''*'' in
                afterWrite typeName
                  (writeGoCode s ev typeName
                     (structComment s ev h schema typeName @ ''type '' @ typeName @ '' []''
                      @ subTypeName @ nl @ nl) st))
             else Some (Inr (''[]'' @ subTypeName), st))
      else if Type (h schema) = BOOLEAN then Some (Inr ''bool'', st)
      else if Type (h schema) = INTEGER then Some (Inr ''int'', st)
      else if Type (h schema) = NUMBER then Some (Inr ''float64'', st)
      else if Type (h schema) = NULL \<or> Type (h schema) = ANY then Some (Inr ''interface{}'', st)
      else if Type (h schema) = STRING then Some (Inr ''string'', st)
      else Some (Inr [], st))"

section \<open>Process\<close>

record session =
  heap :: store
  anonymousObjectCount :: nat
  sink :: pstate

definition Process :: "nat \<Rightarrow> SchemaProcessor \<Rightarrow> env \<Rightarrow> (string \<times> addr) list \<Rightarrow> session
                         \<Rightarrow> (error option \<times> session) option" where
  "Process n s ev schemas ss =
     (case forEachE (\<lambda>(key, schema). ParseSchema n schemas key schema) schemas
             (heap ss, anonymousObjectCount ss) of
        None \<Rightarrow> None
      | Some (Inl e) \<Rightarrow> Some (Some e, ss)
      | Some (Inr (h, c)) \<Rightarrow>
          (case forKeys (\<lambda>targetSchema u st.
                   thenP (processSchema n s ev h (Some targetSchema) st) (\<lambda>typeName st.
                     Some (Inr u, st)))
                  (map snd schemas) () (sink ss) of
             None \<Rightarrow> None
           | Some (r, st) \<Rightarrow>
               Some (case r of Inl e \<Rightarrow> Some e | Inr u \<Rightarrow> None,
                     \<lparr>heap = h, anonymousObjectCount = c, sink = st\<rparr>)))"

definition newSession :: "store \<Rightarrow> session" where
  "newSession h = \<lparr>heap = h, anonymousObjectCount = 0,
                    sink = \<lparr>processed = Map.empty, events = []\<rparr>\<rparr>"

text \<open>\<^verbatim>\<open>main\<close> after flag parsing: \<^verbatim>\<open>Load\<close>, then \<^verbatim>\<open>Process\<close>, on a fresh processor.  The
  documents decoded by \<^verbatim>\<open>json.Unmarshal\<close> are given as nodes of the store; \<open>files\<close> pairs each
  file path with the root of its document.\<close>

definition LoadAndProcess :: "nat \<Rightarrow> SchemaProcessor \<Rightarrow> env \<Rightarrow> (string \<times> addr) list \<Rightarrow> store
                               \<Rightarrow> (error option \<times> session) option" where
  "LoadAndProcess n s ev files h =
     thenO (Load n files ([], h)) (\<lambda>(schemas, h). Process n s ev schemas (newSession h))"

text \<open>What a run shows to its user: the error, if any, and the sequence of output events.\<close>

definition outcome :: "(error option \<times> session) option \<Rightarrow> (error option \<times> event list) option" where
  "outcome r = map_option (\<lambda>(e, ss). (e, events (sink ss))) r"

section \<open>Shape of a store\<close>

text \<open>The nodes a node points to, the nodes reachable from a node, and stores whose pointer
  structure has bounded depth (so without cycles), as the tree that \<^verbatim>\<open>json.Unmarshal\<close>
  builds has.  \<open>on S f\<close> changes the nodes in \<open>S\<close> by \<open>f\<close>.\<close>

definition children :: "Schema \<Rightarrow> addr list" where
  "children s = map snd (entries (Definitions s)) @ map snd (entries (Properties s))
     @ map snd (entries (PatternProperties s)) @ (case Items s of None \<Rightarrow> [] | Some i \<Rightarrow> [i])"

inductive_set reach :: "store \<Rightarrow> addr \<Rightarrow> addr set" for h :: store and a :: addr where
  self: "a \<in> reach h a"
| step: "x \<in> reach h a \<Longrightarrow> c \<in> set (children (h x)) \<Longrightarrow> c \<in> reach h a"

definition ranked :: "(addr \<Rightarrow> nat) \<Rightarrow> store \<Rightarrow> bool" where
  "ranked rk h = (\<forall>a. \<forall>c \<in> set (children (h a)). rk c < rk a)"

definition same_shape :: "store \<Rightarrow> store \<Rightarrow> bool" where
  "same_shape h h' = (\<forall>x. Definitions (h' x) = Definitions (h x) \<and> Properties (h' x) = Properties (h x)
      \<and> PatternProperties (h' x) = PatternProperties (h x) \<and> Items (h' x) = Items (h x))"

definition on :: "addr set \<Rightarrow> (Schema \<Rightarrow> Schema) \<Rightarrow> store \<Rightarrow> store" where
  "on S f h = (\<lambda>x. if x \<in> S then f (h x) else h x)"

text \<open>\<open>grows h h'\<close>: the stores have the same pointers, and a node that has a name in
  \<open>h\<close> has one in \<open>h'\<close>; \<open>settles\<close> is the same up to the order of map entries.\<close>

definition grows :: "store \<Rightarrow> store \<Rightarrow> bool" where
  "grows h h' = (same_shape h h' \<and> (\<forall>x. Name (h x) \<noteq> [] \<longrightarrow> Name (h' x) \<noteq> []))"

text \<open>\<open>reordered h h2\<close>: the stores differ at most in the order in which the maps of a node
  list their entries.\<close>

definition reordered :: "store \<Rightarrow> store \<Rightarrow> bool" where
  "reordered h h2 = (\<forall>x.
      set (entries (Definitions (h2 x))) = set (entries (Definitions (h x)))
    \<and> set (entries (Properties (h2 x))) = set (entries (Properties (h x)))
    \<and> set (entries (PatternProperties (h2 x))) = set (entries (PatternProperties (h x)))
    \<and> Items (h2 x) = Items (h x) \<and> Title (h2 x) = Title (h x) \<and> ID (h2 x) = ID (h x))"

definition settles :: "store \<Rightarrow> store \<Rightarrow> bool" where
  "settles h h2 = (\<forall>x.
      set (entries (Definitions (h2 x))) = set (entries (Definitions (h x)))
    \<and> set (entries (Properties (h2 x))) = set (entries (Properties (h x)))
    \<and> set (entries (PatternProperties (h2 x))) = set (entries (PatternProperties (h x)))
    \<and> Items (h2 x) = Items (h x) \<and> (Name (h x) \<noteq> [] \<longrightarrow> Name (h2 x) \<noteq> []))"

text \<open>The specification's reading of a reference chain of depth at most \<open>n\<close> without a
  cycle, in the loaded store: the node has no reference, or its reference names a node (the
  walk of \<^verbatim>\<open>resolveRefs\<close> ends at one) that starts a chain of depth at most \<open>n - 1\<close>.\<close>

fun spec_chain :: "nat \<Rightarrow> (string \<times> addr) list \<Rightarrow> store \<Rightarrow> string \<Rightarrow> addr \<Rightarrow> bool" where
  "spec_chain 0 schemas h reference a = (Ref (h a) = [])"
| "spec_chain (Suc n) schemas h reference a =
     (Ref (h a) = [] \<or>
      (case walk schemas h reference (CtxSchema (Some a)) (Split (Ref (h a))) of
         Inr (CtxSchema (Some t)) \<Rightarrow> spec_chain n schemas h reference t
       | _ \<Rightarrow> False))"

text \<open>A loaded store is resolvable when a rank decreases from every node to its children and
  to the node its reference names (so containment and references together have no cycle), and
  the walk along a reference reads only nodes that have no reference themselves.\<close>

definition resolvable :: "(string \<times> addr) list \<Rightarrow> string \<Rightarrow> (addr \<Rightarrow> nat) \<Rightarrow> store \<Rightarrow> bool" where
  "resolvable schemas reference rk h =
     (ranked rk h \<and>
      (\<forall>a. Ref (h a) \<noteq> [] \<longrightarrow>
         (\<exists>t. walk schemas h reference (CtxSchema (Some a)) (Split (Ref (h a)))
                = Inr (CtxSchema (Some t))
            \<and> rk t < rk a
            \<and> (\<forall>x \<in> set (visited schemas h reference (CtxSchema (Some a)) (Split (Ref (h a)))).
                  Ref (h x) = []))))"

definition fieldName :: "string \<Rightarrow> bool" where
  "fieldName part = (part \<in> {''definitions'', ''properties'', ''patternProperties'', ''items''})"

text \<open>The four loops of \<^verbatim>\<open>resolveRefs\<close> over the children of a node; \<open>resolve\<close> is the
  recursive call.  \<open>holding h0 cur\<close> is the store in which node \<open>x\<close> has the content that
  node \<open>cur x\<close> has in \<open>h0\<close>: every store that resolution reaches from \<open>h0\<close> is of this form.\<close>

definition resolveChildren :: "(addr \<Rightarrow> store \<Rightarrow> (error + store) option) \<Rightarrow> addr \<Rightarrow> store
    \<Rightarrow> (error + store) option" where
  "resolveChildren resolve schema h =
     thenE (forEachE (\<lambda>(k, v). resolve v) (entries (Definitions (h schema))) h) (\<lambda>h.
     thenE (forEachE (\<lambda>(k, v). resolve v) (entries (Properties (h schema))) h) (\<lambda>h.
     thenE (forEachE (\<lambda>(k, v). resolve v) (entries (PatternProperties (h schema))) h) (\<lambda>h.
     (case Items (h schema) of None \<Rightarrow> Some (Inr h) | Some i \<Rightarrow> resolve i h))))"

definition holding :: "store \<Rightarrow> (addr \<Rightarrow> addr) \<Rightarrow> store" where
  "holding h0 cur = (\<lambda>x. h0 (cur x))"

definition within :: "store \<Rightarrow> (addr \<Rightarrow> nat) \<Rightarrow> (addr \<Rightarrow> addr) \<Rightarrow> bool" where
  "within h0 rk cur = ((\<forall>x. rk (cur x) \<le> rk x) \<and> (\<forall>x. Ref (h0 x) = [] \<longrightarrow> cur x = x))"

definition advances :: "store \<Rightarrow> (addr \<Rightarrow> nat) \<Rightarrow> (addr \<Rightarrow> addr) \<Rightarrow> (addr \<Rightarrow> addr) \<Rightarrow> bool" where
  "advances h0 rk cur cur' =
     ((\<forall>x. rk (cur' x) \<le> rk (cur x)) \<and> (\<forall>x. Ref (h0 (cur x)) = [] \<longrightarrow> cur' x = cur x))"

text \<open>\<open>confined S h h'\<close>: the stores differ at most at the nodes in \<open>S\<close>.\<close>

definition confined :: "addr set \<Rightarrow> store \<Rightarrow> store \<Rightarrow> bool" where
  "confined S h h' = (\<forall>x. x \<notin> S \<longrightarrow> h' x = h x)"




text \<open>The effect of \<^verbatim>\<open>updateReferencePath\<close> on one node.\<close>

definition requalified :: "string \<Rightarrow> Schema \<Rightarrow> Schema" where
  "requalified r s = s\<lparr>Ref := qualify r (Ref s)\<rparr>"

section \<open>Example inputs\<close>

definition emptySchema :: Schema where
  "emptySchema = \<lparr>Title = [], ID = [], Type = ANY, Description = [], Definitions = None,
     Properties = None, PatternProperties = None, Ref = [], Items = None\<rparr>"

definition emptyStore :: store where
  "emptyStore = (\<lambda>_. emptySchema)"

definition toStdout :: SchemaProcessor where
  "toStdout = \<lparr>OutputDir = ''tmp'', PackageName = ''model'', Overwrite = True, Stdout = True,
                Fmt = False, Comment = False\<rparr>"

definition plainEnv :: env where
  "plainEnv = \<lparr>MarshalIndent = (\<lambda>h a. []), Join = (\<lambda>dir file. dir @ ''/'' @ file),
     Args = ''slipscheme'', present = (\<lambda>file. False), open_ok = (\<lambda>file. True),
     write_ok = (\<lambda>file data. True), gofmt_ok = (\<lambda>code. True)\<rparr>"

text \<open>Two documents: node 0 is the root of the first, with \<^verbatim>\<open>definitions/Widget\<close> at node 1
  (an object with the properties \<^verbatim>\<open>id\<close>, a string, and \<^verbatim>\<open>count\<close>, an integer); node 4 is
  the root of the second, an object with the property \<^verbatim>\<open>w\<close> at node 5, which is a reference.
  The title of the second root, the reference and the order in which Widget's properties are
  iterated are parameters.\<close>

definition widget_store :: "string \<Rightarrow> string \<Rightarrow> (string \<times> addr) list \<Rightarrow> store" where
  "widget_store title ref props = emptyStore
     (0 := emptySchema\<lparr>Definitions := Some [(''Widget'', 1)]\<rparr>,
      1 := emptySchema\<lparr>Type := OBJECT, Properties := Some props\<rparr>,
      2 := emptySchema\<lparr>Type := STRING\<rparr>,
      3 := emptySchema\<lparr>Type := INTEGER\<rparr>,
      4 := emptySchema\<lparr>Title := title, Type := OBJECT, Properties := Some [(''w'', 5)]\<rparr>,
      5 := emptySchema\<lparr>Ref := ref\<rparr>)"

definition widget_decl :: string where
  "widget_decl = ''type Widget struct {'' @ nl
     @ ''    Count int '' @ bq @ ''json:'' @ dq @ ''count,omitempty'' @ dq
     @ '' yaml:'' @ dq @ ''count,omitempty'' @ dq @ bq @ nl
     @ ''    ID string '' @ bq @ ''json:'' @ dq @ ''id,omitempty'' @ dq
     @ '' yaml:'' @ dq @ ''id,omitempty'' @ dq @ bq @ nl
     @ ''}'' @ nl @ nl"

definition b_decl :: string where
  "b_decl = ''type B struct {'' @ nl
     @ ''    W *Widget '' @ bq @ ''json:'' @ dq @ ''w,omitempty'' @ dq
     @ '' yaml:'' @ dq @ ''w,omitempty'' @ dq @ bq @ nl
     @ ''}'' @ nl @ nl"

text \<open>A document whose property \<^verbatim>\<open>w\<close> (node 3) refers to a definition that the document
  \<^verbatim>\<open>a\<close> (root 0, with the one definition \<^verbatim>\<open>Widget\<close>) does not have.\<close>

definition gadget_store :: store where
  "gadget_store = emptyStore
     (0 := emptySchema\<lparr>Definitions := Some [(''Widget'', 1)]\<rparr>,
      1 := emptySchema\<lparr>Type := OBJECT\<rparr>,
      2 := emptySchema\<lparr>Type := OBJECT, Properties := Some [(''w'', 3)]\<rparr>,
      3 := emptySchema\<lparr>Ref := ''a#/definitions/Gadget''\<rparr>)"

text \<open>One document: an array without title or id (node 0) whose items (node 1) are
  \<^verbatim>\<open>{"type":"string"}\<close>.\<close>

definition array_store :: store where
  "array_store = emptyStore
     (0 := emptySchema\<lparr>Type := ARRAY, Items := Some 1\<rparr>,
      1 := emptySchema\<lparr>Type := STRING\<rparr>)"

text \<open>An object (node 0) with three properties that are references: one without \<^verbatim>\<open>#\<close>,
  one that starts with \<^verbatim>\<open>#\<close>, one that names a document.\<close>

definition ref_store :: store where
  "ref_store = emptyStore
     (0 := emptySchema\<lparr>Type := OBJECT, Properties := Some [(''p'', 1), (''q'', 2), (''r'', 3)]\<rparr>,
      1 := emptySchema\<lparr>Ref := ''definitions/Foo''\<rparr>,
      2 := emptySchema\<lparr>Ref := ''#/definitions/Foo''\<rparr>,
      3 := emptySchema\<lparr>Ref := ''other.json#/definitions/Foo''\<rparr>)"

definition root_rank :: "addr \<Rightarrow> nat" where
  "root_rank a = (if a = 0 then 1 else 0)"




text \<open>A root that is itself a reference to one of its definitions, which refers to another
  one: a chain of depth two.\<close>

definition chain_store :: store where
  "chain_store = emptyStore
     (0 := emptySchema\<lparr>Ref := ''a#/definitions/X'',
             Definitions := Some [(''X'', 1), (''Y'', 2)]\<rparr>,
      1 := emptySchema\<lparr>Ref := ''a#/definitions/Y''\<rparr>,
      2 := emptySchema\<lparr>Type := STRING\<rparr>)"

text \<open>A chain of depth two between definitions of a root that has no reference: \<^verbatim>\<open>X\<close>
  refers to \<^verbatim>\<open>Y\<close>, \<^verbatim>\<open>Y\<close> to \<^verbatim>\<open>Z\<close>, an object with one property.\<close>

definition alias_store :: store where
  "alias_store = emptyStore
     (0 := emptySchema\<lparr>Definitions := Some [(''X'', 1), (''Y'', 2), (''Z'', 3)]\<rparr>,
      1 := emptySchema\<lparr>Ref := ''a#/definitions/Y''\<rparr>,
      2 := emptySchema\<lparr>Ref := ''a#/definitions/Z''\<rparr>,
      3 := emptySchema\<lparr>Type := OBJECT, Properties := Some [(''p'', 4)]\<rparr>,
      4 := emptySchema\<lparr>Type := STRING\<rparr>)"

definition alias_rank :: "addr \<Rightarrow> nat" where
  "alias_rank a = 4 - a"

text \<open>One document: an object titled \<^verbatim>\<open>doc\<close> (node 0) whose property \<^verbatim>\<open>tags\<close> (node 1)
  is an array without title or id, with a description and one definition (node 3), whose items
  (node 2) are \<^verbatim>\<open>{"type":"string"}\<close>; a rank for it; the declaration of the object.\<close>

definition tags_store :: store where
  "tags_store = emptyStore
     (0 := emptySchema\<lparr>Title := ''doc'', Type := OBJECT, Properties := Some [(''tags'', 1)]\<rparr>,
      1 := emptySchema\<lparr>Type := ARRAY, Description := ''labels'',
             Definitions := Some [(''n'', 3)], Items := Some 2\<rparr>,
      2 := emptySchema\<lparr>Type := STRING\<rparr>,
      3 := emptySchema\<lparr>Type := INTEGER\<rparr>)"

definition tags_rank :: "addr \<Rightarrow> nat" where
  "tags_rank a = (if a = 0 then 2 else if a = 1 then 1 else 0)"

definition doc_decl :: string where
  "doc_decl = ''type Doc struct {'' @ nl
     @ ''    Tags Tags '' @ bq @ ''json:'' @ dq @ ''tags,omitempty'' @ dq
     @ '' yaml:'' @ dq @ ''tags,omitempty'' @ dq @ bq @ nl
     @ ''}'' @ nl @ nl"

section \<open>Evaluation\<close>

text \<open>Rules that run the model on a concrete input with the simplifier: a sequencing
  combinator is unfolded once its first argument is a value, and the congruence rules keep the
  simplifier out of the continuations until then.\<close>

lemma thenO_simps [simp]: "thenO None f = None" "thenO (Some x) f = f x"
  by (simp_all add: thenO_def)

lemma thenE_simps [simp]:
  "thenE None f = None" "thenE (Some (Inl e)) f = Some (Inl e)" "thenE (Some (Inr x)) f = f x"
  by (simp_all add: thenE_def)

lemma thenP_simps [simp]:
  "thenP None g = None" "thenP (Some (Inl e, st)) g = Some (Inl e, st)"
  "thenP (Some (Inr x, st)) g = g x st"
  by (simp_all add: thenP_def)

lemma thenO_weak_cong: "r = r' \<Longrightarrow> thenO r f = thenO r' f"
  by simp

lemma thenE_weak_cong: "r = r' \<Longrightarrow> thenE r f = thenE r' f"
  by simp

lemma thenP_weak_cong: "r = r' \<Longrightarrow> thenP r f = thenP r' f"
  by simp

lemma forEachO_weak_cong: "xs = xs' \<Longrightarrow> s = s' \<Longrightarrow> forEachO f xs s = forEachO f xs' s'"
  by simp

lemma forEachE_weak_cong: "xs = xs' \<Longrightarrow> s = s' \<Longrightarrow> forEachE f xs s = forEachE f xs' s'"
  by simp

lemma forKeys_weak_cong:
  "xs = xs' \<Longrightarrow> a = a' \<Longrightarrow> s = s' \<Longrightarrow> forKeys f xs a s = forKeys f xs' a' s'"
  by simp

lemmas eval_congs = thenO_weak_cong thenE_weak_cong thenP_weak_cong forEachO_weak_cong
  forEachE_weak_cong forKeys_weak_cong

lemma HasSuffix_hash: "HasSuffix part ''#'' \<longleftrightarrow> part \<noteq> [] \<and> last part = CHR ''#''"
  by (cases part rule: rev_cases) (auto simp: HasSuffix_def suffix_def)

lemmas eval_defs = HasSuffix_hash Let_def nl_def bq_def dq_def emptyStore_def emptySchema_def
  LoadSchema_def getReferenceName_def entries_def titleFromKey_def Name_def qualify_def
  LoadAndProcess_def Process_def ParseSchema_def newSession_def outcome_def asSchema_def
  walkStep_def
  index_def assign_def titleItems_def writeGoCode_def emit_def afterWrite_def structComment_def
  fieldLine_def fieldStep_def patternStep_def toStdout_def

lemma widget_strings:
  "camelCase ''id'' = ''ID''" "camelCase ''count'' = ''Count''" "camelCase ''w'' = ''W''"
  "camelCase ''Widget'' = ''Widget''" "camelCase ''b'' = ''B''" "camelCase [] = []"
  "sort [''id'', ''count''] = [''count'', ''id'']"
  "sort [''count'', ''id''] = [''count'', ''id'']"
  "Split ''a.json#/definitions/Widget'' = [''a.json#'', ''definitions'', ''Widget'']"
  "Split ''a#/definitions/Widget'' = [''a#'', ''definitions'', ''Widget'']"
  "Split ''a#/definitions/Gadget'' = [''a#'', ''definitions'', ''Gadget'']"
  "Split ''a.json'' = [''a.json'']" "Split ''b.json'' = [''b.json'']"
  by code_simp+


section \<open>Properties of camelCase\<close>

lemma not_alnum_space: "\<not> isAlnum (CHR '' '')"
  by (simp add: isAlnum_def)

lemma toUpper_alnum: "isAlnum r \<Longrightarrow> isAlnum (toUpper r)"
  unfolding isAlnum_def toUpper_def less_eq_char_def
  by (auto simp: of_char_of)

lemma isSeparator_alnum: "isAlnum r \<Longrightarrow> \<not> isSeparator r"
  by (simp add: isSeparator_def)

lemma isSeparator_space: "isSeparator (CHR '' '')"
  by (simp add: isSeparator_def isAlnum_def)

lemma toUpper_space: "toUpper (CHR '' '') = CHR '' ''"
  by (simp add: toUpper_def)

lemma titleFrom_boundary:
  "filter (\<lambda>r. r \<noteq> CHR '' '')
     (titleFrom prev (map (\<lambda>r. if isAlnum r then r else CHR '' '') name))
   = spec_boundary_words (isSeparator prev) name"
proof (induction name arbitrary: prev)
  case Nil
  show ?case by simp
next
  case (Cons r rs)
  show ?case
  proof (cases "isAlnum r")
    case True
    then have "toUpper r \<noteq> CHR '' ''" "r \<noteq> CHR '' ''"
      using toUpper_alnum [OF True] not_alnum_space by auto
    with True Cons show ?thesis by (simp add: isSeparator_alnum)
  next
    case False
    with Cons show ?thesis by (simp add: isSeparator_space toUpper_space)
  qed
qed

lemma caseName_boundary: "caseName name = spec_boundary_words True name"
  by (simp add: caseName_def strings_Title_def titleFrom_boundary isSeparator_space)

lemma suffix_unique:
  assumes "sfx \<in> set [''Id'', ''Url'', ''Json'', ''Xml'']" and "HasSuffix cn sfx"
  shows "find (HasSuffix cn) [''Id'', ''Url'', ''Json'', ''Xml''] = Some sfx"
proof -
  obtain zs where cn: "cn = zs @ sfx"
    using assms(2) by (auto simp: HasSuffix_def suffix_def)
  have last: "sfx \<noteq> [] \<Longrightarrow> last cn = last sfx"
    by (simp add: cn)
  have len: "\<And>p. suffix p cn \<Longrightarrow> length p = length sfx \<Longrightarrow> p = sfx"
    by (auto simp: cn suffix_def append_eq_append_conv)
  have l: "\<And>p. suffix p cn \<Longrightarrow> p \<noteq> [] \<Longrightarrow> last p = last cn"
    by (auto simp: suffix_def)
  from assms(1) consider "sfx = ''Id''" | "sfx = ''Url''" | "sfx = ''Json''" | "sfx = ''Xml''"
    by auto
  then show ?thesis
  proof cases
    case 1
    then show ?thesis using assms(2) by (simp add: HasSuffix_def)
  next
    case 2
    have "\<not> suffix ''Id'' cn" using l [of "''Id''"] last 2 by auto
    then show ?thesis using assms(2) 2 by (simp add: HasSuffix_def)
  next
    case 3
    have "\<not> suffix ''Id'' cn" "\<not> suffix ''Url'' cn"
      using l [of "''Id''"] l [of "''Url''"] last 3 by auto
    then show ?thesis using assms(2) 3 by (simp add: HasSuffix_def)
  next
    case 4
    have "\<not> suffix ''Id'' cn" "\<not> suffix ''Json'' cn"
      using l [of "''Id''"] l [of "''Json''"] last 4 by auto
    moreover have "\<not> suffix ''Url'' cn" using len [of "''Url''"] 4 by auto
    ultimately show ?thesis using assms(2) 4 by (simp add: HasSuffix_def)
  qed
qed

lemma prefix_unique:
  assumes "pfx \<in> set [''Url'', ''Json'', ''Xml'']" and "HasPrefix cn pfx"
  shows "find (HasPrefix cn) [''Url'', ''Json'', ''Xml''] = Some pfx"
proof -
  obtain zs where cn: "cn = pfx @ zs"
    using assms(2) by (auto simp: HasPrefix_def prefix_def)
  have h: "\<And>p. prefix p cn \<Longrightarrow> p \<noteq> [] \<Longrightarrow> pfx \<noteq> [] \<Longrightarrow> hd p = hd pfx"
    by (auto simp: cn prefix_def hd_append split: if_splits) (metis hd_append2)
  from assms(1) consider "pfx = ''Url''" | "pfx = ''Json''" | "pfx = ''Xml''"
    by auto
  then show ?thesis
  proof cases
    case 1
    then show ?thesis using assms(2) by (simp add: HasPrefix_def)
  next
    case 2
    have "\<not> prefix ''Url'' cn" using h [of "''Url''"] 2 by auto
    then show ?thesis using assms(2) 2 by (simp add: HasPrefix_def)
  next
    case 3
    have "\<not> prefix ''Url'' cn" "\<not> prefix ''Json'' cn"
      using h [of "''Url''"] h [of "''Json''"] 3 by auto
    then show ?thesis using assms(2) 3 by (simp add: HasPrefix_def)
  qed
qed

text \<open>
  Claim C8, as the code has it.  \<^verbatim>\<open>camelCase\<close> maps \<^verbatim>\<open>user_id\<close> to \<^verbatim>\<open>UserID\<close> and
  \<^verbatim>\<open>image_url\<close> to \<^verbatim>\<open>ImageURL\<close>.  For every input, the word form \<^const>\<open>caseName\<close> treats
  every non-alphanumeric character as a word boundary (removed, the next alphanumeric
  character upper-cased), and the result of \<^verbatim>\<open>camelCase\<close> is determined by it in three
  cases that exclude each other and cover every input: a word form ending in Id, Url, Json or
  Xml gets that suffix upper-cased; one that has no such ending and starts with Url, Json or
  Xml gets that prefix upper-cased (the function returns at the first rule that matches); one
  that matches neither rule is returned as it is.
\<close>

theorem C8_camelCase_rules:
  "camelCase ''user_id'' = ''UserID''
   \<and> camelCase ''image_url'' = ''ImageURL''
   \<and> caseName name = spec_boundary_words True name
   \<and> (sfx \<in> set [''Id'', ''Url'', ''Json'', ''Xml''] \<and> HasSuffix (caseName name) sfx \<longrightarrow>
        camelCase name = TrimSuffix (caseName name) sfx @ ToUpper sfx)
   \<and> (pfx \<in> set [''Url'', ''Json'', ''Xml''] \<and> HasPrefix (caseName name) pfx
        \<and> (\<forall>s \<in> set [''Id'', ''Url'', ''Json'', ''Xml'']. \<not> HasSuffix (caseName name) s) \<longrightarrow>
        camelCase name = ToUpper pfx @ TrimPrefix (caseName name) pfx)
   \<and> ((\<forall>s \<in> set [''Id'', ''Url'', ''Json'', ''Xml'']. \<not> HasSuffix (caseName name) s)
        \<and> (\<forall>p \<in> set [''Url'', ''Json'', ''Xml'']. \<not> HasPrefix (caseName name) p) \<longrightarrow>
        camelCase name = spec_boundary_words True name)"
proof -
  have a: "camelCase ''user_id'' = ''UserID''" by code_simp
  have b: "camelCase ''image_url'' = ''ImageURL''" by code_simp
  have c: "caseName name = spec_boundary_words True name" by (rule caseName_boundary)
  have d: "camelCase name = TrimSuffix (caseName name) sfx @ ToUpper sfx"
    if "sfx \<in> set [''Id'', ''Url'', ''Json'', ''Xml'']" "HasSuffix (caseName name) sfx"
    using suffix_unique [OF that] by (simp add: camelCase_def)
  have e: "camelCase name = ToUpper pfx @ TrimPrefix (caseName name) pfx"
    if p: "pfx \<in> set [''Url'', ''Json'', ''Xml'']" "HasPrefix (caseName name) pfx"
      and n: "\<forall>s \<in> set [''Id'', ''Url'', ''Json'', ''Xml'']. \<not> HasSuffix (caseName name) s"
  proof -
    have "find (HasSuffix (caseName name)) [''Id'', ''Url'', ''Json'', ''Xml''] = None"
      using n by simp
    then show ?thesis using prefix_unique [OF p] by (simp add: camelCase_def)
  qed
  have f: "camelCase name = spec_boundary_words True name"
    if n: "\<forall>s \<in> set [''Id'', ''Url'', ''Json'', ''Xml'']. \<not> HasSuffix (caseName name) s"
      and m: "\<forall>p \<in> set [''Url'', ''Json'', ''Xml'']. \<not> HasPrefix (caseName name) p"
  proof -
    have "find (HasSuffix (caseName name)) [''Id'', ''Url'', ''Json'', ''Xml''] = None"
      using n by simp
    moreover have "find (HasPrefix (caseName name)) [''Url'', ''Json'', ''Xml''] = None"
      using m by simp
    ultimately show ?thesis using c by (simp add: camelCase_def)
  qed
  from a b c d e f show ?thesis by blast
qed

theorem C8_camelCase_rules_witness:
  "camelCase ''user_id'' = TrimSuffix (caseName ''user_id'') ''Id'' @ ToUpper ''Id''
   \<and> HasSuffix (caseName ''user_id'') ''Id''
   \<and> camelCase ''url_map'' = ToUpper ''Url'' @ TrimPrefix (caseName ''url_map'') ''Url''
   \<and> HasPrefix (caseName ''url_map'') ''Url''
   \<and> camelCase ''url_map'' = ''URLMap''
   \<and> camelCase ''foo_bar'' = spec_boundary_words True ''foo_bar''
   \<and> camelCase ''foo_bar'' = ''FooBar''"
proof -
  have s: "HasSuffix (caseName ''user_id'') ''Id''" by code_simp
  have p: "HasPrefix (caseName ''url_map'') ''Url''" by code_simp
  have n: "\<forall>sfx \<in> set [''Id'', ''Url'', ''Json'', ''Xml'']. \<not> HasSuffix (caseName ''url_map'') sfx"
    by code_simp
  have v: "camelCase ''url_map'' = ''URLMap''" by code_simp
  have n': "\<forall>sfx \<in> set [''Id'', ''Url'', ''Json'', ''Xml'']. \<not> HasSuffix (caseName ''foo_bar'') sfx"
    by code_simp
  have m': "\<forall>pfx \<in> set [''Url'', ''Json'', ''Xml'']. \<not> HasPrefix (caseName ''foo_bar'') pfx"
    by code_simp
  have w: "spec_boundary_words True ''foo_bar'' = ''FooBar''" by code_simp
  show ?thesis
    using C8_camelCase_rules [of "''user_id''" "''Id''" "''Url''"] s
      C8_camelCase_rules [of "''url_map''" "''Id''" "''Url''"] p n v
      C8_camelCase_rules [of "''foo_bar''" "''Id''" "''Url''"] n' m' w
    by simp
qed

text \<open>
  Claim C8 as stated fails where both rules match: \<^verbatim>\<open>url_id\<close> becomes \<^verbatim>\<open>UrlId\<close>, which
  starts with Url, and the result \<^verbatim>\<open>UrlID\<close> keeps that prefix as it is.
\<close>

theorem C8_prefix_counterexample:
  "HasPrefix (caseName ''url_id'') ''Url'' \<and> camelCase ''url_id'' = ''UrlID''
   \<and> \<not> HasPrefix (camelCase ''url_id'') ''URL''"
  by code_simp

section \<open>Resolving references: a path component that does not exist\<close>

lemma resolveRefs_nil_context:
  assumes "Ref (h a) \<noteq> []"
    and "walk schemas h reference (CtxSchema (Some a)) (Split (Ref (h a))) = Inr (CtxSchema None)"
  shows "resolveRefs (Suc n) schemas reference a h = Some (Inl NilDereference)"
  using assms by (simp add: assign_def)

text \<open>
  Claim C5 says that a reference whose last path segment is missing from the map it is looked
  up in leaves the node unchanged and returns no error.  In the code the lookup yields the nil
  pointer of type \<^verbatim>\<open>*Schema\<close>; the type assertion before the copy succeeds on it, and the copy
  \<^verbatim>\<open>*schema = *cast\<close> dereferences it.  At the property \<^verbatim>\<open>w\<close> of \<^const>\<open>gadget_store\<close>,
  whose reference \<^verbatim>\<open>a#/definitions/Gadget\<close> names the loaded document \<^verbatim>\<open>a\<close>, the walk
  ends in the nil context and \<^verbatim>\<open>resolveRefs\<close> panics, whatever the depth allowed.
\<close>

theorem C5_missing_segment_panics:
  "walk [(''a'', 0), (''b'', 2)] gadget_store ''b'' (CtxSchema (Some 3))
       (Split (Ref (gadget_store 3))) = Inr (CtxSchema None)
   \<and> resolveRefs (Suc n) [(''a'', 0), (''b'', 2)] ''b'' 3 gadget_store = Some (Inl NilDereference)"
proof -
  have r: "Ref (gadget_store 3) = ''a#/definitions/Gadget''"
    by (simp add: gadget_store_def eval_defs)
  have w: "walk [(''a'', 0), (''b'', 2)] gadget_store ''b'' (CtxSchema (Some 3))
             (Split (Ref (gadget_store 3))) = Inr (CtxSchema None)"
    unfolding r by (simp add: gadget_store_def eval_defs widget_strings)
  from resolveRefs_nil_context [OF _ w] r w show ?thesis by simp
qed

section \<open>The two-file scenario\<close>

text \<open>
  Claim C6 as stated: the files are \<^verbatim>\<open>a.json\<close> and \<^verbatim>\<open>b.json\<close>, the reference is
  \<^verbatim>\<open>a#/definitions/Widget\<close>, the second root has no title.  The documents are stored under
  their file names, \<^verbatim>\<open>a.json\<close> and \<^verbatim>\<open>b.json\<close>, so the run stops with the error for a
  reference to a file that is not in the processing list, and nothing is declared.
\<close>

theorem C6_two_files_counterexample:
  "outcome (LoadAndProcess (Suc (Suc (Suc (Suc 0)))) toStdout plainEnv
      [(''a.json'', 0), (''b.json'', 4)]
      (widget_store [] ''a#/definitions/Widget'' [(''id'', 2), (''count'', 3)]))
   = Some (Some (InvalidReferenceFile ''b.json'' ''a''), [])"
  by (simp add: widget_store_def eval_defs widget_strings cong: eval_congs)

lemma two_files_ab:
  "props = [(''id'', 2), (''count'', 3)] \<or> props = [(''count'', 3), (''id'', 2)] \<Longrightarrow>
   outcome (LoadAndProcess (Suc (Suc (Suc (Suc 0)))) toStdout ev
      [(''a.json'', 0), (''b.json'', 4)]
      (widget_store ''b'' ''a.json#/definitions/Widget'' props))
   = Some (None, [Print widget_decl, Print b_decl])"
  by (erule disjE)
    (simp_all add: widget_store_def eval_defs widget_strings widget_decl_def b_decl_def
       cong: eval_congs)

lemma two_files_ba:
  "props = [(''id'', 2), (''count'', 3)] \<or> props = [(''count'', 3), (''id'', 2)] \<Longrightarrow>
   outcome (LoadAndProcess (Suc (Suc (Suc (Suc 0)))) toStdout ev
      [(''b.json'', 4), (''a.json'', 0)]
      (widget_store ''b'' ''a.json#/definitions/Widget'' props))
   = Some (None, [Print widget_decl, Print b_decl])"
  by (erule disjE)
    (simp_all add: widget_store_def eval_defs widget_strings widget_decl_def b_decl_def
       cong: eval_congs)

text \<open>
  Claim C6, amended: with the reference written \<^verbatim>\<open>a.json#/definitions/Widget\<close> (a document
  is stored under its file name, extension included) and the second root titled \<^verbatim>\<open>b\<close> (a
  root takes its name from its title, not from its file), the run succeeds and writes exactly
  two declarations, \<^verbatim>\<open>Widget\<close> with the fields \<^verbatim>\<open>Count int\<close> and \<^verbatim>\<open>ID string\<close>, then
  \<^verbatim>\<open>B\<close> with the field \<^verbatim>\<open>W *Widget\<close>, in either order of the two documents and of Widget's
  two properties.
\<close>

theorem C6_two_files_amended:
  "\<forall>files \<in> {[(''a.json'', 0), (''b.json'', 4)], [(''b.json'', 4), (''a.json'', 0)]}.
   \<forall>props \<in> {[(''id'', 2), (''count'', 3)], [(''count'', 3), (''id'', 2)]}.
     outcome (LoadAndProcess (Suc (Suc (Suc (Suc 0)))) toStdout ev files
        (widget_store ''b'' ''a.json#/definitions/Widget'' props))
     = Some (None, [Print widget_decl, Print b_decl])"
  using two_files_ab two_files_ba by blast

theorem C6_two_files_amended_witness:
  "[(''a.json'', 0), (''b.json'', 4)]
     \<in> {[(''a.json'', 0), (''b.json'', 4)], [(''b.json'', 4), (''a.json'', 0::nat)]}
   \<and> [(''id'', 2), (''count'', 3)] \<in> {[(''id'', 2), (''count'', 3)], [(''count'', 3), (''id'', 2::nat)]}
   \<and> outcome (LoadAndProcess (Suc (Suc (Suc (Suc 0)))) toStdout plainEnv
        [(''a.json'', 0), (''b.json'', 4)]
        (widget_store ''b'' ''a.json#/definitions/Widget'' [(''id'', 2), (''count'', 3)]))
      = Some (None, [Print widget_decl, Print b_decl])"
  using C6_two_files_amended [of plainEnv] by simp

section \<open>Anonymous names\<close>

lemma showNat_digits: "c \<in> set (showNat k) \<Longrightarrow> CHR ''0'' \<le> c \<and> c \<le> CHR ''9''"
proof (induction k rule: showNat.induct)
  case (1 n)
  have d: "\<And>d. d < 10 \<Longrightarrow> CHR ''0'' \<le> char_of (48 + d :: nat) \<and> char_of (48 + d :: nat) \<le> CHR ''9''"
    by (simp add: less_eq_char_def of_char_of)
  show ?case
  proof (cases "n < 10")
    case True
    with 1(2) d [of n] show ?thesis by (simp add: showNat.simps [of n])
  next
    case False
    with 1 d [of "n mod 10"] show ?thesis by (auto simp: showNat.simps [of n])
  qed
qed

lemma showNat_nonempty: "showNat k \<noteq> []"
  by (subst showNat.simps) simp

lemma boundary_words_alnum: "\<forall>c \<in> set s. isAlnum c \<Longrightarrow> spec_boundary_words False s = s"
  by (induction s) auto

lemma digit_alnum: "CHR ''0'' \<le> c \<and> c \<le> CHR ''9'' \<Longrightarrow> isAlnum c"
  by (simp add: isAlnum_def)

lemma anon_alnum: "\<forall>c \<in> set (''nonymousObject'' @ showNat k). isAlnum c"
  using showNat_digits digit_alnum by (auto simp: isAlnum_def)

lemma caseName_anonymous: "caseName (anonymousName k) = anonymousName k"
  using boundary_words_alnum [OF anon_alnum [of k]]
  by (simp add: caseName_boundary isAlnum_def toUpper_def anonymousName_def)

lemma camelCase_anonymous: "camelCase (anonymousName k) = anonymousName k"
proof -
  let ?s = "anonymousName k"
  have l: "CHR ''0'' \<le> last ?s \<and> last ?s \<le> CHR ''9''"
    using showNat_digits [of "last (showNat k)" k] showNat_nonempty [of k]
    by (simp add: anonymousName_def)
  have "\<not> suffix p ?s" if "p \<in> set [''Id'', ''Url'', ''Json'', ''Xml'']" for p
  proof
    assume "suffix p ?s"
    then obtain zs where "?s = zs @ p" by (auto simp: suffix_def)
    then have "last ?s = last p" using that by auto
    with l that show False by auto
  qed
  then have s: "find (HasSuffix ?s) [''Id'', ''Url'', ''Json'', ''Xml''] = None"
    by (simp add: HasSuffix_def)
  have p: "find (HasPrefix ?s) [''Url'', ''Json'', ''Xml''] = None"
    by (simp add: HasPrefix_def anonymousName_def)
  show ?thesis unfolding camelCase_def Let_def caseName_anonymous s p by simp
qed

lemma anonymous_plain:
  "anonymousName k \<noteq> []"
  "TrimPrefix (anonymousName k) ''*'' = anonymousName k"
  by (simp_all add: TrimPrefix_def HasPrefix_def anonymousName_def)

lemma Title_string: "strings_Title ''string'' \<noteq> ''string''"
  by code_simp

lemma anonymousName_1: "anonymousName (Suc 0) = ''AnonymousObject1''"
  by code_simp

section \<open>Emission happens at most once per name\<close>

lemma writeGoCode_processed:
  "processed (snd (writeGoCode s ev typeName code st))
   = (if processed st typeName = Some True then processed st
      else (processed st)(typeName \<mapsto> True))"
  by (simp add: writeGoCode_def Let_def emit_def)

lemma writeGoCode_seen:
  "processed st typeName = Some True \<Longrightarrow> writeGoCode s ev typeName code st = (None, st)"
  by (simp add: writeGoCode_def)

lemma writeGoCode_keeps:
  "processed st name = Some True \<Longrightarrow> processed (snd (writeGoCode s ev typeName code st)) name = Some True"
  by (simp add: writeGoCode_processed)

lemma emitAll_seen:
  "processed st name = Some True \<Longrightarrow>
   emitAll s ev requests st = emitAll s ev (filter (\<lambda>(n, c). n \<noteq> name) requests) st"
proof (induction requests arbitrary: st)
  case Nil
  show ?case by simp
next
  case (Cons r requests)
  obtain n c where r: "r = (n, c)" by (cases r)
  show ?case
  proof (cases "n = name")
    case True
    with Cons r show ?thesis by (simp add: writeGoCode_seen)
  next
    case False
    obtain e st' where w: "writeGoCode s ev n c st = (e, st')" by (cases "writeGoCode s ev n c st")
    have "processed st' name = Some True"
      using writeGoCode_keeps [OF Cons.prems, of s ev n c] w by simp
    from Cons.IH [OF this] False r w show ?thesis by (simp split: option.splits)
  qed
qed

text \<open>
  Claim C3.  A request for a name that the cache of processed types already holds returns
  success and changes nothing; any request leaves its name in the cache; and so, in every
  sequence of requests that follows a request for a name, the later requests for that name
  can be deleted without changing the result or the output: only the first one can write.
\<close>

theorem C3_at_most_once:
  "(processed st name = Some True \<longrightarrow> writeGoCode s ev name code st = (None, st))
   \<and> processed (snd (writeGoCode s ev name code st)) name = Some True
   \<and> emitAll s ev ((name, code) # requests) st
       = emitAll s ev ((name, code) # filter (\<lambda>(n, c). n \<noteq> name) requests) st"
proof -
  obtain e st' where w: "writeGoCode s ev name code st = (e, st')"
    by (cases "writeGoCode s ev name code st")
  have p: "processed st' name = Some True"
    using writeGoCode_processed [of s ev name code st] w by (simp split: if_splits)
  have "emitAll s ev ((name, code) # requests) st
       = emitAll s ev ((name, code) # filter (\<lambda>(n, c). n \<noteq> name) requests) st"
    using emitAll_seen [OF p, of s ev requests] w by (simp split: option.splits)
  moreover have "processed (snd (writeGoCode s ev name code st)) name = Some True"
    using p w by simp
  ultimately show ?thesis using writeGoCode_seen [of st name s ev code] by blast
qed

theorem C3_at_most_once_witness:
  "processed \<lparr>processed = [''Foo'' \<mapsto> True], events = []\<rparr> ''Foo'' = Some True
   \<and> writeGoCode toStdout plainEnv ''Foo'' ''type Foo []string''
        \<lparr>processed = [''Foo'' \<mapsto> True], events = []\<rparr>
      = (None, \<lparr>processed = [''Foo'' \<mapsto> True], events = []\<rparr>)
   \<and> emitAll toStdout plainEnv [(''Foo'', ''type Foo []string''), (''Foo'', ''type Foo []int'')]
        \<lparr>processed = Map.empty, events = []\<rparr>
      = (None, \<lparr>processed = [''Foo'' \<mapsto> True], events = [Print ''type Foo []string'']\<rparr>)"
proof -
  have e: "emitAll toStdout plainEnv [(''Foo'', ''type Foo []string'')] \<lparr>processed = Map.empty, events = []\<rparr>
      = (None, \<lparr>processed = [''Foo'' \<mapsto> True], events = [Print ''type Foo []string'']\<rparr>)"
    by (simp add: writeGoCode_def toStdout_def emit_def)
  show ?thesis
    using C3_at_most_once [of "\<lparr>processed = [''Foo'' \<mapsto> True], events = []\<rparr>" "''Foo''"
        toStdout plainEnv "''type Foo []string''" "[]"]
      C3_at_most_once [of "\<lparr>processed = Map.empty, events = []\<rparr>" "''Foo''"
        toStdout plainEnv "''type Foo []string''" "[(''Foo'', ''type Foo []int'')]"] e
    by simp
qed

section \<open>Qualifying reference paths\<close>

lemma same_shape_children: "same_shape h h' \<Longrightarrow> children (h' x) = children (h x)"
  by (simp add: same_shape_def children_def)

lemma same_shape_reach: assumes "same_shape h h'" shows "reach h' a = reach h a"
proof -
  have "x \<in> reach h' a \<Longrightarrow> x \<in> reach h a" for x
    by (induction rule: reach.induct) (auto intro: reach.intros simp: same_shape_children [OF assms])
  moreover have "x \<in> reach h a \<Longrightarrow> x \<in> reach h' a" for x
    by (induction rule: reach.induct) (auto intro: reach.intros simp: same_shape_children [OF assms])
  ultimately show ?thesis by blast
qed

lemma same_shape_ranked: "same_shape h h' \<Longrightarrow> ranked rk h \<Longrightarrow> ranked rk h'"
  by (simp add: ranked_def same_shape_children)

lemma reach_trans: "y \<in> reach h x \<Longrightarrow> x \<in> reach h a \<Longrightarrow> y \<in> reach h a"
  by (induction rule: reach.induct) (auto intro: reach.intros)

lemma reach_unfold: "reach h a = insert a (\<Union>c \<in> set (children (h a)). reach h c)"
proof -
  have "x \<in> reach h a \<Longrightarrow> x = a \<or> (\<exists>c \<in> set (children (h a)). x \<in> reach h c)" for x
  proof (induction rule: reach.induct)
    case self
    show ?case by simp
  next
    case (step x c)
    then show ?case by (auto intro: reach.intros)
  qed
  moreover have "x \<in> reach h c \<Longrightarrow> c \<in> set (children (h a)) \<Longrightarrow> x \<in> reach h a" for x c
    using reach_trans [of x h c a] by (auto intro: reach.intros)
  ultimately show ?thesis by (auto intro: reach.self)
qed

lemma on_on: "(\<And>s. f (f s) = f s) \<Longrightarrow> on T f (on S f h) = on (S \<union> T) f h"
  by (auto simp: on_def fun_eq_iff)

lemma on_empty [simp]: "on {} f h = h"
  by (simp add: on_def)

lemma on_single: "h(a := f (h a)) = on {a} f h"
  by (auto simp: on_def fun_eq_iff)

lemma Split_nonempty: "Split x \<noteq> []"
  by (induction x) (auto split: list.splits)

lemma Split_no_slash:
  "CHR ''/'' \<notin> set r \<Longrightarrow> Split (r @ x) = (case Split x of [] \<Rightarrow> [r] | p # ps \<Rightarrow> (r @ p) # ps)"
  using Split_nonempty [of x] by (induction r) (auto split: list.splits)

lemma hd_Split_append: "CHR ''/'' \<notin> set r \<Longrightarrow> hd (Split (r @ x)) = r @ hd (Split x)"
  using Split_nonempty [of x] by (cases "Split x") (auto simp: Split_no_slash)

lemma qualify_alt: "qualify r x = (if hd (Split x) = ''#'' then r @ x else x)"
  using Split_nonempty [of x] by (cases "Split x"; cases x) (auto simp: qualify_def)

lemma qualify_idem:
  assumes "CHR ''/'' \<notin> set r" shows "qualify r (qualify r x) = qualify r x"
  by (cases "r = []") (auto simp: qualify_alt hd_Split_append [OF assms])

lemma requalified_idem: "CHR ''/'' \<notin> set r \<Longrightarrow> requalified r (requalified r s) = requalified r s"
  by (simp add: requalified_def qualify_idem)

lemma same_shape_on_requalified: "same_shape h (on S (requalified r) h)"
  by (simp add: same_shape_def on_def requalified_def)

lemma forEachO_requalify:
  assumes r: "CHR ''/'' \<notin> set r"
    and IH: "\<And>a h. ranked rk h \<Longrightarrow> rk a < n \<Longrightarrow>
               updateReferencePath n r a h = Some (on (reach h a) (requalified r) h)"
  shows "ranked rk h \<Longrightarrow> \<forall>c \<in> snd ` set kvs. rk c < n \<Longrightarrow>
         forEachO (\<lambda>(k, v). updateReferencePath n r v) kvs (on S (requalified r) h)
         = Some (on (S \<union> (\<Union>c \<in> snd ` set kvs. reach h c)) (requalified r) h)"
proof (induction kvs arbitrary: S)
  case Nil
  show ?case by simp
next
  case (Cons kv kvs)
  obtain k v where kv: "kv = (k, v)" by (cases kv)
  let ?h = "on S (requalified r) h"
  have sh: "same_shape h ?h" by (rule same_shape_on_requalified)
  have "updateReferencePath n r v ?h = Some (on (reach ?h v) (requalified r) ?h)"
    using IH [of ?h v] same_shape_ranked [OF sh Cons.prems(1)] Cons.prems(2) kv by simp
  also have "on (reach ?h v) (requalified r) ?h = on (S \<union> reach h v) (requalified r) h"
    by (simp add: on_on requalified_idem [OF r] same_shape_reach [OF sh])
  finally have 1: "updateReferencePath n r v ?h = Some (on (S \<union> reach h v) (requalified r) h)" .
  have "S \<union> reach h v \<union> (\<Union>c \<in> snd ` set kvs. reach h c) = S \<union> (\<Union>c \<in> snd ` set (kv # kvs). reach h c)"
    using kv by auto
  with Cons.IH [of "S \<union> reach h v"] Cons.prems 1 kv show ?case by simp
qed


lemma on_fields [simp]:
  "Definitions (on S (requalified r) h x) = Definitions (h x)"
  "Properties (on S (requalified r) h x) = Properties (h x)"
  "PatternProperties (on S (requalified r) h x) = PatternProperties (h x)"
  "Items (on S (requalified r) h x) = Items (h x)"
  by (simp_all add: on_def requalified_def)

lemma reach_on_requalified [simp]: "reach (on S (requalified r) h) a = reach h a"
  by (rule same_shape_reach [OF same_shape_on_requalified])

lemma updateReferencePath_requalify:
  assumes r: "CHR ''/'' \<notin> set r"
  shows "ranked rk h \<Longrightarrow> rk a < n \<Longrightarrow>
         updateReferencePath n r a h = Some (on (reach h a) (requalified r) h)"
proof (induction n arbitrary: a h)
  case 0
  then show ?case by simp
next
  case (Suc n)
  let ?q = "requalified r"
  define D where "D = entries (Definitions (h a))"
  define P where "P = entries (Properties (h a))"
  define PP where "PP = entries (PatternProperties (h a))"
  define I where "I = (case Items (h a) of None \<Rightarrow> {} | Some i \<Rightarrow> {i})"
  have ch: "set (children (h a)) = snd ` set D \<union> snd ` set P \<union> snd ` set PP \<union> I"
    by (auto simp: children_def D_def P_def PP_def I_def split: option.splits)
  have small: "\<forall>c \<in> snd ` set D \<union> snd ` set P \<union> snd ` set PP \<union> I. rk c < n"
    using Suc.prems ch unfolding ranked_def by (metis less_Suc_eq less_trans_Suc not_less_eq)
  note loop = forEachO_requalify [OF r Suc.IH Suc.prems(1)]
  define S1 where "S1 = (\<Union>c \<in> snd ` set D. reach h c)"
  define S2 where "S2 = S1 \<union> (\<Union>c \<in> snd ` set P. reach h c)"
  define S3 where "S3 = S2 \<union> (\<Union>c \<in> snd ` set PP. reach h c)"
  define S4 where "S4 = S3 \<union> (\<Union>c \<in> I. reach h c)"
  have 1: "forEachO (\<lambda>(k, v). updateReferencePath n r v) D h = Some (on S1 ?q h)"
    using loop [of D "{}"] small by (simp add: S1_def)
  have 2: "forEachO (\<lambda>(k, v). updateReferencePath n r v) P (on S1 ?q h) = Some (on S2 ?q h)"
    using loop [of P S1] small by (simp add: S2_def)
  have 3: "forEachO (\<lambda>(k, v). updateReferencePath n r v) PP (on S2 ?q h) = Some (on S3 ?q h)"
    using loop [of PP S2] small by (simp add: S3_def)
  have 4: "(case Items (h a) of None \<Rightarrow> Some (on S3 ?q h)
            | Some i \<Rightarrow> updateReferencePath n r i (on S3 ?q h)) = Some (on S4 ?q h)"
  proof (cases "Items (h a)")
    case None
    then show ?thesis by (simp add: S4_def I_def)
  next
    case (Some i)
    let ?h = "on S3 ?q h"
    have sh: "same_shape h ?h" by (rule same_shape_on_requalified)
    have "rk i < n" using small Some by (simp add: I_def)
    then have "updateReferencePath n r i ?h = Some (on (reach ?h i) ?q ?h)"
      using Suc.IH [of ?h i] same_shape_ranked [OF sh Suc.prems(1)] by simp
    also have "on (reach ?h i) ?q ?h = on (S3 \<union> reach h i) ?q h"
      by (simp add: on_on requalified_idem [OF r])
    finally show ?thesis using Some by (simp add: S4_def I_def)
  qed
  have 5: "(on S4 ?q h) (a := (on S4 ?q h a)\<lparr>Ref := qualify r (Ref (on S4 ?q h a))\<rparr>)
        = on (S4 \<union> {a}) ?q h"
    using on_single [of "on S4 ?q h" a ?q] on_on [of ?q "{a}" S4 h] requalified_idem [OF r]
    by (simp add: requalified_def)
  have 6: "S4 \<union> {a} = reach h a"
    using reach_unfold [of h a] ch by (auto simp: S4_def S3_def S2_def S1_def)
  have "updateReferencePath (Suc n) r a h
        = Some ((on S4 ?q h) (a := (on S4 ?q h a)\<lparr>Ref := qualify r (Ref (on S4 ?q h a))\<rparr>))"
    using 1 2 3 4 by (simp add: D_def [symmetric] P_def [symmetric] PP_def [symmetric])
  then show ?case by (simp only: 5 6)
qed

lemma ref_strings:
  "Split ''definitions/Foo'' = [''definitions'', ''Foo'']"
  "Split ''#/definitions/Foo'' = [''#'', ''definitions'', ''Foo'']"
  "Split ''other.json#/definitions/Foo'' = [''other.json#'', ''definitions'', ''Foo'']"
  by code_simp+

lemma ranked_ref_store: "ranked root_rank ref_store"
  by (auto simp: ranked_def root_rank_def ref_store_def children_def eval_defs)

text \<open>
  Claim C1 as stated fails in both directions on \<^const>\<open>ref_store\<close>, loaded under the key
  \<^verbatim>\<open>a.json\<close>: the reference \<^verbatim>\<open>definitions/Foo\<close> contains no \<^verbatim>\<open>#\<close> and is left as it
  is, and the reference \<^verbatim>\<open>#/definitions/Foo\<close>, which contains one, is rewritten, to the key
  followed by the reference.
\<close>

theorem C1_counterexample:
  "Ref (ref_store 1) = ''definitions/Foo'' \<and> CHR ''#'' \<notin> set (Ref (ref_store 1))
   \<and> map_option (\<lambda>h. Ref (h 1)) (updateReferencePath (Suc (Suc 0)) ''a.json'' 0 ref_store)
       = Some ''definitions/Foo''
   \<and> ''definitions/Foo'' \<noteq> ''a.json'' @ ''#'' @ Ref (ref_store 1)
   \<and> Ref (ref_store 2) = ''#/definitions/Foo'' \<and> CHR ''#'' \<in> set (Ref (ref_store 2))
   \<and> map_option (\<lambda>h. Ref (h 2)) (updateReferencePath (Suc (Suc 0)) ''a.json'' 0 ref_store)
       = Some ''a.json#/definitions/Foo''"
  by (simp add: ref_store_def eval_defs ref_strings cong: eval_congs)

text \<open>
  Claim C1, amended.  On a store of bounded depth, and for a reference key without a slash
  (as \<^verbatim>\<open>getReferenceName\<close> returns), the pass returns, and it has rewritten the reference of
  exactly the nodes below the root whose reference has \<^verbatim>\<open>#\<close> as its first path segment,
  to the key followed by the reference; every other reference, and everything else in the
  store, is unchanged.
\<close>

theorem C1_qualification:
  assumes "ranked rk h" and "CHR ''/'' \<notin> set reference"
  shows "\<exists>h'. updateReferencePath (Suc (rk a)) reference a h = Some h'
          \<and> (\<forall>x. h' x = (if x \<in> reach h a \<and> hd (Split (Ref (h x))) = ''#''
                           then (h x)\<lparr>Ref := reference @ Ref (h x)\<rparr> else h x))"
  using updateReferencePath_requalify [OF assms(2) assms(1), of a "Suc (rk a)"]
  by (auto simp: on_def requalified_def qualify_alt)


theorem C1_qualification_witness:
  "ranked root_rank ref_store \<and> CHR ''/'' \<notin> set ''a.json''
   \<and> (\<exists>h'. updateReferencePath (Suc (root_rank 0)) ''a.json'' 0 ref_store = Some h'
          \<and> h' 1 = ref_store 1
          \<and> h' 2 = (ref_store 2)\<lparr>Ref := ''a.json#/definitions/Foo''\<rparr>
          \<and> h' 3 = ref_store 3)"
proof -
  have s: "CHR ''/'' \<notin> set ''a.json''" by simp
  have r: "2 \<in> reach ref_store 0"
    by (rule reach.step [OF reach.self]) (simp add: ref_store_def children_def eval_defs)
  obtain h' where h: "updateReferencePath (Suc (root_rank 0)) ''a.json'' 0 ref_store = Some h'"
    and q: "\<forall>x. h' x = (if x \<in> reach ref_store 0 \<and> hd (Split (Ref (ref_store x))) = ''#''
                           then (ref_store x)\<lparr>Ref := ''a.json'' @ Ref (ref_store x)\<rparr> else ref_store x)"
    using C1_qualification [OF ranked_ref_store s, of 0] by blast
  have "h' 1 = ref_store 1" "h' 3 = ref_store 3"
    using q by (simp_all add: ref_store_def eval_defs ref_strings)
  moreover have "h' 2 = (ref_store 2)\<lparr>Ref := ''a.json#/definitions/Foo''\<rparr>"
    using q r by (simp add: ref_store_def eval_defs ref_strings)
  ultimately show ?thesis using h ranked_ref_store s by blast
qed

section \<open>Name assignment is idempotent\<close>

lemma reordered_settles: "reordered h h2 \<Longrightarrow> settles h h2"
  by (simp add: reordered_def settles_def Name_def)

lemma reordered_refl: "reordered h h"
  by (simp add: reordered_def)

lemma grows_settles: "grows h h1 \<Longrightarrow> settles h1 h2 \<Longrightarrow> settles h h2"
  by (simp add: grows_def same_shape_def settles_def)

lemma settles_named: "settles h h2 \<Longrightarrow> Name (h x) \<noteq> [] \<Longrightarrow> Name (h2 x) \<noteq> []"
  by (simp add: settles_def)

lemma settles_fields:
  assumes "settles h h2"
  shows "set (entries (Definitions (h2 x))) = set (entries (Definitions (h x)))"
    "set (entries (Properties (h2 x))) = set (entries (Properties (h x)))"
    "set (entries (PatternProperties (h2 x))) = set (entries (PatternProperties (h x)))"
    "Items (h2 x) = Items (h x)"
  using assms by (simp_all add: settles_def)

lemma forEachO_fixed: "\<forall>x \<in> set xs. f x s = Some s \<Longrightarrow> forEachO f xs s = Some s"
  by (induction xs) auto

lemma grows_refl: "grows h h"
  by (simp add: grows_def same_shape_def)

lemma grows_trans: "grows h h1 \<Longrightarrow> grows h1 h2 \<Longrightarrow> grows h h2"
  by (simp add: grows_def same_shape_def)

lemma grows_shape: "grows h h' \<Longrightarrow> same_shape h h'"
  by (simp add: grows_def)

lemma grows_named: "grows h h' \<Longrightarrow> Name (h x) \<noteq> [] \<Longrightarrow> Name (h' x) \<noteq> []"
  by (simp add: grows_def)

lemma grows_titleFromKey: "grows h (titleFromKey k v h)"
  by (simp add: grows_def same_shape_def titleFromKey_def)

lemma titleFromKey_named: "k \<noteq> [] \<Longrightarrow> Name (titleFromKey k v h v) \<noteq> []"
  by (simp add: titleFromKey_def Name_def)

lemma titleFromKey_fix: "Name (h v) \<noteq> [] \<or> k = [] \<Longrightarrow> titleFromKey k v h = h"
  by (auto simp: titleFromKey_def Name_def fun_eq_iff split: if_splits)

lemma anonymousName_nonempty: "anonymousName k \<noteq> []"
  by (simp add: anonymousName_def)

lemma grows_titleItems: "titleItems a i (h, c) = (h', c') \<Longrightarrow> grows h h'"
  by (auto simp: titleItems_def Let_def grows_def same_shape_def Name_def anonymousName_nonempty
      split: if_splits)

lemma titleItems_named: "titleItems a i (h, c) = (h', c') \<Longrightarrow> Name (h' i) \<noteq> []"
  by (auto simp: titleItems_def Let_def Name_def split: if_splits)

lemma titleItems_fix: "Name (h i) \<noteq> [] \<Longrightarrow> titleItems a i (h, c) = (h, c)"
  by (simp add: titleItems_def)

lemma forEachO_rel:
  assumes step: "\<And>x s s'. x \<in> set xs \<Longrightarrow> f x s = Some s' \<Longrightarrow> R s s'"
    and refl: "\<And>s. R s s" and trans: "\<And>s t u. R s t \<Longrightarrow> R t u \<Longrightarrow> R s u"
  shows "forEachO f xs s = Some s' \<Longrightarrow> R s s'"
  using step
proof (induction xs arbitrary: s)
  case Nil
  then show ?case using refl by simp
next
  case (Cons x xs)
  from Cons.prems(1) obtain t where t: "f x s = Some t" and r: "forEachO f xs t = Some s'"
    by (auto split: option.splits)
  have "R s t" using Cons.prems(2) [of x s t] t by simp
  moreover have "R t s'" using Cons.IH [OF r] Cons.prems(2) by auto
  ultimately show ?case using trans by blast
qed

lemma setTitle_grows: "setTitle n r a (h, c) = Some (h', c') \<Longrightarrow> grows h h'"
proof (induction n arbitrary: a h c h' c')
  case 0
  then show ?case by simp
next
  case (Suc n)
  let ?F = "\<lambda>(k, v) (h, c). setTitle n r v (titleFromKey k v h, c)"
  have F: "grows (fst s) (fst s')" if "?F kv s = Some s'" for kv s s'
  proof -
    obtain k v h0 c0 h1 c1 where e: "kv = (k, v)" "s = (h0, c0)" "s' = (h1, c1)"
      by (cases kv, cases s, cases s') auto
    with that have "setTitle n r v (titleFromKey k v h0, c0) = Some (h1, c1)" by simp
    from Suc.IH [OF this] grows_titleFromKey [of h0 k v] e show ?thesis
      by (auto intro: grows_trans)
  qed
  have L: "grows (fst s) (fst s')" if "forEachO ?F kvs s = Some s'" for kvs s s'
    using forEachO_rel [where R = "\<lambda>s s'. grows (fst s) (fst s')" and f = ?F, OF _ _ _ that]
      F grows_refl grows_trans by blast
  from Suc.prems obtain s1 s2 s3 where
    1: "forEachO ?F (entries (Definitions (h a))) (h, c) = Some s1" and
    2: "forEachO ?F (entries (Properties (fst s1 a))) s1 = Some s2" and
    3: "forEachO ?F (entries (PatternProperties (fst s2 a))) s2 = Some s3" and
    4: "(case Items (fst s3 a) of None \<Rightarrow> Some s3
         | Some i \<Rightarrow> setTitle n r i (titleItems a i s3)) = Some (h', c')"
    by (auto simp: thenO_def split: option.splits)
  have "grows (fst s3) h'"
  proof (cases "Items (fst s3 a)")
    case None
    with 4 show ?thesis by (auto simp: grows_refl)
  next
    case (Some i)
    obtain h3 c3 where s3: "s3 = (h3, c3)" by (cases s3)
    obtain h4 c4 where t: "titleItems a i (h3, c3) = (h4, c4)" by (cases "titleItems a i (h3, c3)")
    with 4 Some s3 have "setTitle n r i (h4, c4) = Some (h', c')" by simp
    from Suc.IH [OF this] grows_titleItems [OF t] s3 show ?thesis by (auto intro: grows_trans)
  qed
  with L [OF 1] L [OF 2] L [OF 3] show ?case by (auto intro: grows_trans)
qed


lemma forEachO_setTitle_grows:
  "forEachO (\<lambda>(k, v) (h, c). setTitle n r v (titleFromKey k v h, c)) kvs s = Some s'
   \<Longrightarrow> grows (fst s) (fst s')"
proof (rule forEachO_rel [where R = "\<lambda>s s'. grows (fst s) (fst s')"])
  fix kv :: "string \<times> addr" and s s' :: "store \<times> nat"
  assume "(case kv of (k, v) \<Rightarrow> \<lambda>(h, c). setTitle n r v (titleFromKey k v h, c)) s = Some s'"
  then show "grows (fst s) (fst s')"
    by (cases kv, cases s, cases s')
      (auto intro: grows_trans [OF grows_titleFromKey setTitle_grows])
qed (auto intro: grows_refl grows_trans)

lemma same_shape_fields:
  assumes "same_shape h h'"
  shows "Definitions (h' x) = Definitions (h x)" "Properties (h' x) = Properties (h x)"
    "PatternProperties (h' x) = PatternProperties (h x)" "Items (h' x) = Items (h x)"
  using assms by (simp_all add: same_shape_def)

lemma setTitle_settled:
  "setTitle n r a (h, c) = Some (h', c') \<Longrightarrow> settles h' h2 \<Longrightarrow>
   setTitle n r a (h2, c2) = Some (h2, c2)"
proof (induction n arbitrary: a h c h' c')
  case 0
  then show ?case by simp
next
  case (Suc n)
  let ?F = "\<lambda>(k, v) (h, c). setTitle n r v (titleFromKey k v h, c)"
  have LQ: "\<forall>kv \<in> set kvs. ?F kv (h2, c2) = Some (h2, c2)"
    if "forEachO ?F kvs s = Some s'" "settles (fst s') h2" for kvs s s'
    using that
  proof (induction kvs arbitrary: s)
    case Nil
    show ?case by simp
  next
    case (Cons kv kvs)
    obtain k v h0 c0 where e: "kv = (k, v)" "s = (h0, c0)" by (cases kv, cases s) auto
    from Cons.prems(1) e obtain h1 c1 where
      t: "setTitle n r v (titleFromKey k v h0, c0) = Some (h1, c1)"
      and rest: "forEachO ?F kvs (h1, c1) = Some s'"
      by (auto split: option.splits)
    have g: "settles h1 h2"
      using grows_settles [OF forEachO_setTitle_grows [OF rest]] Cons.prems(2) by simp
    have "Name (h2 v) \<noteq> [] \<or> k = []"
      using titleFromKey_named [of k v h0] grows_named [OF setTitle_grows [OF t]]
        settles_named [OF g] by blast
    then have "titleFromKey k v h2 = h2" by (rule titleFromKey_fix)
    moreover have "setTitle n r v (h2, c2) = Some (h2, c2)" by (rule Suc.IH [OF t g])
    ultimately show ?case using Cons.IH [OF rest Cons.prems(2)] e by simp
  qed
  from Suc.prems(1) obtain s1 s2 s3 where
    1: "forEachO ?F (entries (Definitions (h a))) (h, c) = Some s1" and
    2: "forEachO ?F (entries (Properties (fst s1 a))) s1 = Some s2" and
    3: "forEachO ?F (entries (PatternProperties (fst s2 a))) s2 = Some s3" and
    4: "(case Items (fst s3 a) of None \<Rightarrow> Some s3
         | Some i \<Rightarrow> setTitle n r i (titleItems a i s3)) = Some (h', c')"
    by (auto simp: thenO_def split: option.splits)
  have g3: "grows (fst s3) h' \<and> (case Items (fst s3 a) of None \<Rightarrow> True
      | Some i \<Rightarrow> Name (h2 i) \<noteq> [] \<and> setTitle n r i (h2, c2) = Some (h2, c2))"
  proof (cases "Items (fst s3 a)")
    case None
    with 4 show ?thesis by (auto simp: grows_refl)
  next
    case (Some i)
    obtain h3 c3 where s3: "s3 = (h3, c3)" by (cases s3)
    obtain h4 c4 where t: "titleItems a i (h3, c3) = (h4, c4)" by (cases "titleItems a i (h3, c3)")
    with 4 Some s3 have r: "setTitle n r i (h4, c4) = Some (h', c')" by simp
    have "Name (h2 i) \<noteq> []"
      using titleItems_named [OF t] grows_named [OF setTitle_grows [OF r]]
        settles_named [OF Suc.prems(2)] by blast
    with Suc.IH [OF r Suc.prems(2)] setTitle_grows [OF r] grows_titleItems [OF t] s3 Some
    show ?thesis by (auto intro: grows_trans)
  qed
  have s3h: "settles (fst s3) h2" using g3 Suc.prems(2) by (auto intro: grows_settles)
  have s2h: "settles (fst s2) h2" using forEachO_setTitle_grows [OF 3] s3h by (auto intro: grows_settles)
  have s1h: "settles (fst s1) h2" using forEachO_setTitle_grows [OF 2] s2h by (auto intro: grows_settles)
  have s0h: "settles h h2" using forEachO_setTitle_grows [OF 1] s1h by (auto intro: grows_settles)
  have "forEachO ?F (entries (Definitions (h2 a))) (h2, c2) = Some (h2, c2)"
    using LQ [OF 1] s1h settles_fields [OF s0h] by (intro forEachO_fixed) simp
  moreover have "forEachO ?F (entries (Properties (h2 a))) (h2, c2) = Some (h2, c2)"
    using LQ [OF 2] s2h settles_fields [OF s1h] by (intro forEachO_fixed) simp
  moreover have "forEachO ?F (entries (PatternProperties (h2 a))) (h2, c2) = Some (h2, c2)"
    using LQ [OF 3] s3h settles_fields [OF s2h] by (intro forEachO_fixed) simp
  moreover have "(case Items (h2 a) of None \<Rightarrow> Some (h2, c2)
         | Some i \<Rightarrow> setTitle n r i (titleItems a i (h2, c2))) = Some (h2, c2)"
    using g3 settles_fields(4) [OF s3h, of a]
    by (auto simp: titleItems_fix split: option.splits)
  ultimately show ?case by simp
qed

lemma grows_ranked: "grows h h' \<Longrightarrow> ranked rk h \<Longrightarrow> ranked rk h'"
  using same_shape_ranked grows_shape by blast

lemma setTitle_returns:
  "ranked rk h \<Longrightarrow> rk a < n \<Longrightarrow> \<exists>h' c'. setTitle n r a (h, c) = Some (h', c')"
proof (induction n arbitrary: a h c)
  case 0
  then show ?case by simp
next
  case (Suc n)
  let ?F = "\<lambda>(k, v) (h, c). setTitle n r v (titleFromKey k v h, c)"
  have L: "\<exists>s'. forEachO ?F kvs s = Some s'"
    if "ranked rk (fst s)" "\<forall>v \<in> snd ` set kvs. rk v < n" for kvs s
    using that
  proof (induction kvs arbitrary: s)
    case Nil
    show ?case by simp
  next
    case (Cons kv kvs)
    obtain k v h0 c0 where e: "kv = (k, v)" "s = (h0, c0)" by (cases kv, cases s) auto
    have "ranked rk (titleFromKey k v h0)"
      using grows_ranked [OF grows_titleFromKey] Cons.prems(1) e by simp
    then obtain h1 c1 where t: "setTitle n r v (titleFromKey k v h0, c0) = Some (h1, c1)"
      using Suc.IH [of "titleFromKey k v h0" v c0] Cons.prems(2) e by auto
    have "ranked rk h1"
      using grows_ranked [OF setTitle_grows [OF t]] grows_ranked [OF grows_titleFromKey]
        Cons.prems(1) e by simp
    then show ?case using Cons.IH [of "(h1, c1)"] Cons.prems(2) t e by simp
  qed
  have ch: "\<forall>v \<in> set (children (h a)). rk v < n"
    using Suc.prems unfolding ranked_def by (metis less_Suc_eq less_trans_Suc not_less_eq)
  obtain s1 where 1: "forEachO ?F (entries (Definitions (h a))) (h, c) = Some s1"
    using L [of "(h, c)" "entries (Definitions (h a))"] Suc.prems(1) ch
    by (auto simp: children_def)
  note g1 = forEachO_setTitle_grows [OF 1, simplified]
  note f1 = same_shape_fields [OF grows_shape [OF g1]]
  obtain s2 where 2: "forEachO ?F (entries (Properties (fst s1 a))) s1 = Some s2"
    using L [of s1 "entries (Properties (fst s1 a))"] grows_ranked [OF g1 Suc.prems(1)] ch f1
    by (auto simp: children_def)
  note g2 = grows_trans [OF g1 forEachO_setTitle_grows [OF 2]]
  note f2 = same_shape_fields [OF grows_shape [OF g2]]
  obtain s3 where 3: "forEachO ?F (entries (PatternProperties (fst s2 a))) s2 = Some s3"
    using L [of s2 "entries (PatternProperties (fst s2 a))"] grows_ranked [OF g2 Suc.prems(1)] ch f2
    by (auto simp: children_def)
  note g3 = grows_trans [OF g2 forEachO_setTitle_grows [OF 3]]
  note f3 = same_shape_fields [OF grows_shape [OF g3]]
  have "\<exists>h' c'. (case Items (fst s3 a) of None \<Rightarrow> Some s3
         | Some i \<Rightarrow> setTitle n r i (titleItems a i s3)) = Some (h', c')"
  proof (cases "Items (fst s3 a)")
    case None
    then show ?thesis by (cases s3) simp
  next
    case (Some i)
    obtain h3 c3 where s3: "s3 = (h3, c3)" by (cases s3)
    obtain h4 c4 where t: "titleItems a i (h3, c3) = (h4, c4)" by (cases "titleItems a i (h3, c3)")
    have "ranked rk h4"
      using grows_ranked [OF grows_titleItems [OF t]] grows_ranked [OF g3 Suc.prems(1)] s3 by simp
    moreover have "rk i < n" using ch f3(4) [of a] Some by (auto simp: children_def)
    ultimately show ?thesis using Suc.IH [of h4 i c4] Some s3 t by simp
  qed
  with 1 2 3 show ?case by simp
qed

lemma ranked_array_store: "ranked root_rank array_store"
  by (auto simp: ranked_def root_rank_def array_store_def children_def eval_defs)

text \<open>
  Claim C9.  On a store of bounded depth \<^verbatim>\<open>setTitle\<close> returns, and applied again to the
  store and counter it returned it returns them unchanged: no title and no counter value
  changes.  The same holds when the second application iterates the maps in another order.
\<close>

theorem C9_setTitle_idempotent:
  assumes "ranked rk h"
  shows "\<exists>h' c'. setTitle (Suc (rk a)) reference a (h, c) = Some (h', c')
           \<and> setTitle (Suc (rk a)) reference a (h', c') = Some (h', c')
           \<and> (\<forall>h2. reordered h' h2 \<longrightarrow>
                  setTitle (Suc (rk a)) reference a (h2, c') = Some (h2, c'))"
proof -
  have "rk a < Suc (rk a)" by simp
  from setTitle_returns [OF assms this]
  obtain h' c' where 1: "setTitle (Suc (rk a)) reference a (h, c) = Some (h', c')"
    by blast
  have "setTitle (Suc (rk a)) reference a (h2, c') = Some (h2, c')" if "reordered h' h2" for h2
    by (rule setTitle_settled [OF 1 reordered_settles [OF that]])
  with 1 reordered_refl show ?thesis by blast
qed


theorem C9_setTitle_idempotent_witness:
  "ranked root_rank array_store
   \<and> (\<exists>h' c'. setTitle (Suc (root_rank 0)) [] 0 (array_store, 0) = Some (h', c')
          \<and> Title (h' 0) = ''AnonymousObject1'' \<and> Title (h' 1) = ''AnonymousObject1Item'' \<and> c' = 1
          \<and> setTitle (Suc (root_rank 0)) [] 0 (h', c') = Some (h', c'))"
proof -
  obtain h' c' where 1: "setTitle (Suc (root_rank 0)) [] 0 (array_store, 0) = Some (h', c')"
    and 2: "setTitle (Suc (root_rank 0)) [] 0 (h', c') = Some (h', c')"
    using C9_setTitle_idempotent [OF ranked_array_store, of 0 "[]" 0] by blast
  have "setTitle (Suc (root_rank 0)) [] 0 (array_store, 0)
        = Some (array_store
                  (0 := (array_store 0)\<lparr>Title := ''AnonymousObject1''\<rparr>,
                   1 := (array_store 1)\<lparr>Title := ''AnonymousObject1Item''\<rparr>), 1)"
    by (simp add: root_rank_def array_store_def eval_defs anonymousName_1 cong: eval_congs)
  with 1 have "Title (h' 0) = ''AnonymousObject1''" "Title (h' 1) = ''AnonymousObject1Item''" "c' = 1"
    by auto
  with 1 2 ranked_array_store show ?thesis by blast
qed

section \<open>Synthesis does not depend on the order of map entries\<close>

















section \<open>Pattern properties\<close>






section \<open>Resolving references: termination\<close>

lemma fieldName_plain: "fieldName part \<Longrightarrow> part \<noteq> ''#'' \<and> \<not> HasSuffix part ''#''"
  by (auto simp: fieldName_def HasSuffix_hash)

lemma reads_alt:
  "reads c part = (if fieldName part then (case c of CtxSchema (Some a) \<Rightarrow> [a] | _ \<Rightarrow> []) else [])"
  by (simp add: reads_def fieldName_def)

lemma walkStep_other:
  "\<not> fieldName part \<Longrightarrow>
   walkStep schemas h reference c part =
     (if part = ''#'' then Inl (InvalidReferencePoint reference)
      else if HasSuffix part ''#'' then
        (case map_of schemas (butlast part) of
           None \<Rightarrow> Inl (InvalidReferenceFile reference (butlast part))
         | Some referenceSchema \<Rightarrow> Inr (CtxSchema (Some referenceSchema)))
      else (case c of CtxMap m \<Rightarrow> Inr (CtxSchema (index m part)) | CtxSchema p \<Rightarrow> Inr c))"
  by (simp add: walkStep_def fieldName_def)

lemma walkStep_same:
  assumes "\<forall>x \<in> set (reads c part). h' x = h x"
  shows "walkStep schemas h' reference c part = walkStep schemas h reference c part"
proof (cases "fieldName part")
  case False
  then show ?thesis by (simp add: walkStep_other)
next
  case True
  have "asSchema h' c = asSchema h c"
    using assms True by (auto simp: reads_alt asSchema_def split: ctx.splits option.splits)
  then show ?thesis by (simp add: walkStep_def)
qed

lemma walk_same:
  "\<forall>x \<in> set (visited schemas h reference c parts). h' x = h x \<Longrightarrow>
   walk schemas h' reference c parts = walk schemas h reference c parts
   \<and> visited schemas h' reference c parts = visited schemas h reference c parts"
proof (induction parts arbitrary: c)
  case Nil
  show ?case by simp
next
  case (Cons part parts)
  have s: "walkStep schemas h' reference c part = walkStep schemas h reference c part"
    using Cons.prems by (intro walkStep_same) simp
  show ?case
  proof (cases "walkStep schemas h reference c part")
    case (Inl e)
    with s show ?thesis by simp
  next
    case (Inr c')
    with Cons.prems have "\<forall>x \<in> set (visited schemas h reference c' parts). h' x = h x" by simp
    from Cons.IH [OF this] s Inr show ?thesis by simp
  qed
qed

lemma walkStep_start:
  assumes "reads (CtxSchema (Some a)) part = []"
    and "walkStep schemas h reference (CtxSchema (Some a)) part = Inr c"
  shows "(c = CtxSchema (Some a)
          \<and> walkStep schemas h reference (CtxSchema (Some b)) part = Inr (CtxSchema (Some b)))
         \<or> walkStep schemas h reference (CtxSchema (Some b)) part = Inr c"
proof -
  have nf: "\<not> fieldName part" using assms(1) by (cases "fieldName part") (simp_all add: reads_alt)
  show ?thesis
    using assms(2) unfolding walkStep_other [OF nf]
    by (auto split: if_splits option.splits)
qed

lemma walk_start:
  assumes "walk schemas h reference (CtxSchema (Some a)) parts = Inr c"
    and "a \<notin> set (visited schemas h reference (CtxSchema (Some a)) parts)"
    and "c \<noteq> CtxSchema (Some a)"
  shows "walk schemas h reference (CtxSchema (Some b)) parts = Inr c
   \<and> visited schemas h reference (CtxSchema (Some b)) parts
     = visited schemas h reference (CtxSchema (Some a)) parts"
  using assms
proof (induction parts)
  case Nil
  then show ?case by simp
next
  case (Cons part parts)
  have "a \<notin> set (reads (CtxSchema (Some a)) part)"
    using Cons.prems(2) by simp
  then have nf: "\<not> fieldName part" by (cases "fieldName part") (simp_all add: reads_alt)
  then have r: "reads (CtxSchema (Some a)) part = []"
    and rb: "reads (CtxSchema (Some b)) part = []"
    by (simp_all add: reads_alt)
  from Cons.prems(1) obtain c1 where
    1: "walkStep schemas h reference (CtxSchema (Some a)) part = Inr c1"
    and 2: "walk schemas h reference c1 parts = Inr c"
    by (auto split: sum.splits)
  from walkStep_start [OF r 1, of b]
  consider "c1 = CtxSchema (Some a)"
      "walkStep schemas h reference (CtxSchema (Some b)) part = Inr (CtxSchema (Some b))"
    | "walkStep schemas h reference (CtxSchema (Some b)) part = Inr c1"
    by blast
  then show ?case
  proof cases
    case 1
    with Cons \<open>walkStep schemas h reference (CtxSchema (Some a)) part = Inr c1\<close> 2 r rb
    show ?thesis by simp
  next
    case 2
    with \<open>walkStep schemas h reference (CtxSchema (Some a)) part = Inr c1\<close>
      \<open>walk schemas h reference c1 parts = Inr c\<close> r rb
    show ?thesis by simp
  qed
qed


lemma resolveRefs_Suc:
  "resolveRefs (Suc n) schemas reference a h =
     thenE (if Ref (h a) \<noteq> [] then
              (case walk schemas h reference (CtxSchema (Some a)) (Split (Ref (h a))) of
                 Inl e \<Rightarrow> Some (Inl e)
               | Inr c \<Rightarrow>
                   (case assign h a c of
                      Inl e \<Rightarrow> Some (Inl e)
                    | Inr h \<Rightarrow> resolveRefs n schemas reference a h))
            else Some (Inr h))
       (resolveChildren (resolveRefs n schemas reference) a)"
  by (simp add: resolveChildren_def [abs_def])

lemma holding_apply: "holding h0 cur x = h0 (cur x)"
  by (simp add: holding_def)

lemma holding_id: "holding h0 (\<lambda>x. x) = h0"
  by (simp add: holding_def)

lemma holding_upd: "(holding h0 cur) (a := holding h0 cur t) = holding h0 (cur (a := cur t))"
  by (auto simp: holding_def fun_eq_iff)

lemma advances_refl: "advances h0 rk cur cur"
  by (simp add: advances_def)

lemma advances_trans:
  "advances h0 rk c1 c2 \<Longrightarrow> advances h0 rk c2 c3 \<Longrightarrow> advances h0 rk c1 c3"
  unfolding advances_def by (metis le_trans)

lemma advances_within: "within h0 rk cur \<Longrightarrow> advances h0 rk cur cur' \<Longrightarrow> within h0 rk cur'"
  unfolding advances_def within_def by (metis le_trans)

lemma advances_frame: "advances h0 rk cur cur' \<Longrightarrow> Ref (h0 (cur x)) = [] \<Longrightarrow> cur' x = cur x"
  by (simp add: advances_def)

lemma advances_rank: "advances h0 rk cur cur' \<Longrightarrow> rk (cur' x) \<le> rk (cur x)"
  by (simp add: advances_def)

lemma within_solid: "within h0 rk cur \<Longrightarrow> Ref (h0 x) = [] \<Longrightarrow> cur x = x"
  unfolding within_def by blast

lemma within_rank: "within h0 rk cur \<Longrightarrow> rk (cur x) \<le> rk x"
  by (simp add: within_def)

lemma ranked_child: "ranked rk h \<Longrightarrow> c \<in> set (children (h a)) \<Longrightarrow> rk c < rk a"
  by (simp add: ranked_def)

lemma forEachE_resolves:
  assumes step: "\<And>cur a. within h0 rk cur \<Longrightarrow> rk (cur a) < n \<Longrightarrow>
      \<exists>cur'. resolve a (holding h0 cur) = Some (Inr (holding h0 cur')) \<and> advances h0 rk cur cur'"
  shows "within h0 rk cur \<Longrightarrow> \<forall>v \<in> snd ` set kvs. rk v < n \<Longrightarrow>
         \<exists>cur'. forEachE (\<lambda>(k, v). resolve v) kvs (holding h0 cur) = Some (Inr (holding h0 cur'))
               \<and> advances h0 rk cur cur'"
proof (induction kvs arbitrary: cur)
  case Nil
  show ?case by (auto intro: advances_refl)
next
  case (Cons kv kvs)
  obtain k v where kv: "kv = (k, v)" by (cases kv)
  have "rk (cur v) < n"
    using within_rank [OF Cons.prems(1), of v] Cons.prems(2) kv by auto
  from step [OF Cons.prems(1) this] obtain cur1 where
    1: "resolve v (holding h0 cur) = Some (Inr (holding h0 cur1))" and a1: "advances h0 rk cur cur1"
    by blast
  have w1: "within h0 rk cur1" by (rule advances_within [OF Cons.prems(1) a1])
  have "\<forall>v \<in> snd ` set kvs. rk v < n" using Cons.prems(2) by simp
  from Cons.IH [OF w1 this] obtain cur2 where
    2: "forEachE (\<lambda>(k, v). resolve v) kvs (holding h0 cur1) = Some (Inr (holding h0 cur2))"
    and a2: "advances h0 rk cur1 cur2"
    by blast
  from 1 2 kv advances_trans [OF a1 a2] show ?case by auto
qed

lemma resolveChildren_resolves:
  assumes step: "\<And>cur a. within h0 rk cur \<Longrightarrow> rk (cur a) < n \<Longrightarrow>
      \<exists>cur'. resolve a (holding h0 cur) = Some (Inr (holding h0 cur')) \<and> advances h0 rk cur cur'"
    and rk: "ranked rk h0" and w: "within h0 rk cur"
    and e: "Ref (h0 (cur a)) = []" and n: "rk (cur a) \<le> n"
  shows "\<exists>cur'. resolveChildren resolve a (holding h0 cur) = Some (Inr (holding h0 cur'))
               \<and> advances h0 rk cur cur'"
proof -
  have ch: "\<forall>c \<in> set (children (h0 (cur a))). rk c < n"
    using ranked_child [OF rk] n by fastforce
  have loop: "\<exists>cur'. forEachE (\<lambda>(k, v). resolve v) kvs (holding h0 cur) = Some (Inr (holding h0 cur'))
               \<and> advances h0 rk cur cur'"
    if "within h0 rk cur" "\<forall>v \<in> snd ` set kvs. rk v < n" for cur kvs
  proof (rule forEachE_resolves)
    show "\<exists>cur'. resolve a (holding h0 cur) = Some (Inr (holding h0 cur')) \<and> advances h0 rk cur cur'"
      if "within h0 rk cur" "rk (cur a) < n" for cur a
      using step that by blast
  qed (use that in auto)
  obtain cur1 where
    1: "forEachE (\<lambda>(k, v). resolve v) (entries (Definitions (h0 (cur a)))) (holding h0 cur)
        = Some (Inr (holding h0 cur1))" and a1: "advances h0 rk cur cur1"
    using loop [OF w, of "entries (Definitions (h0 (cur a)))"] ch by (auto simp: children_def)
  have w1: "within h0 rk cur1" by (rule advances_within [OF w a1])
  have f1: "cur1 a = cur a" by (rule advances_frame [OF a1 e])
  obtain cur2 where
    2: "forEachE (\<lambda>(k, v). resolve v) (entries (Properties (h0 (cur a)))) (holding h0 cur1)
        = Some (Inr (holding h0 cur2))" and a2: "advances h0 rk cur1 cur2"
    using loop [OF w1, of "entries (Properties (h0 (cur a)))"] ch by (auto simp: children_def)
  have w2: "within h0 rk cur2" by (rule advances_within [OF w1 a2])
  have f2: "cur2 a = cur a" using advances_frame [OF a2, of a] e f1 by simp
  obtain cur3 where
    3: "forEachE (\<lambda>(k, v). resolve v) (entries (PatternProperties (h0 (cur a)))) (holding h0 cur2)
        = Some (Inr (holding h0 cur3))" and a3: "advances h0 rk cur2 cur3"
    using loop [OF w2, of "entries (PatternProperties (h0 (cur a)))"] ch
    by (auto simp: children_def)
  have w3: "within h0 rk cur3" by (rule advances_within [OF w2 a3])
  have f3: "cur3 a = cur a" using advances_frame [OF a3, of a] e f2 by simp
  obtain cur4 where
    4: "(case Items (h0 (cur a)) of None \<Rightarrow> Some (Inr (holding h0 cur3))
         | Some i \<Rightarrow> resolve i (holding h0 cur3)) = Some (Inr (holding h0 cur4))"
    and a4: "advances h0 rk cur3 cur4"
  proof (cases "Items (h0 (cur a))")
    case None
    then show ?thesis using that [of cur3] advances_refl by simp
  next
    case (Some i)
    have "rk i < n" using ch Some by (simp add: children_def)
    then have "rk (cur3 i) < n" using within_rank [OF w3, of i] by simp
    from step [OF w3 this] Some that show ?thesis by auto
  qed
  have g: "holding h0 cur a = h0 (cur a)" "holding h0 cur1 a = h0 (cur a)"
    "holding h0 cur2 a = h0 (cur a)" "holding h0 cur3 a = h0 (cur a)"
    using f1 f2 f3 by (simp_all add: holding_def)
  have "resolveChildren resolve a (holding h0 cur) = Some (Inr (holding h0 cur4))"
    unfolding resolveChildren_def g 1 thenE_simps 2 3 by (rule 4)
  moreover have "advances h0 rk cur cur4"
    using a1 a2 a3 a4 by (blast intro: advances_trans)
  ultimately show ?thesis by blast
qed


lemma resolveRefs_resolves:
  assumes R: "resolvable schemas reference rk h0"
  shows "within h0 rk cur \<Longrightarrow> rk (cur a) < n \<Longrightarrow>
         \<exists>cur'. resolveRefs n schemas reference a (holding h0 cur) = Some (Inr (holding h0 cur'))
               \<and> advances h0 rk cur cur' \<and> Ref (h0 (cur' a)) = []"
proof (induction n arbitrary: cur a)
  case 0
  then show ?case by simp
next
  case (Suc n)
  note w = Suc.prems(1)
  have rkd: "ranked rk h0" using R by (simp add: resolvable_def)
  have step: "\<exists>cur'. resolveRefs n schemas reference a (holding h0 cur) = Some (Inr (holding h0 cur'))
               \<and> advances h0 rk cur cur'"
    if "within h0 rk cur" "rk (cur a) < n" for cur a
    using Suc.IH [OF that] by blast
  have first: "\<exists>cur2.
      (if Ref (holding h0 cur a) \<noteq> [] then
         (case walk schemas (holding h0 cur) reference (CtxSchema (Some a))
                 (Split (Ref (holding h0 cur a))) of
            Inl e \<Rightarrow> Some (Inl e)
          | Inr c \<Rightarrow>
              (case assign (holding h0 cur) a c of
                 Inl e \<Rightarrow> Some (Inl e)
               | Inr h \<Rightarrow> resolveRefs n schemas reference a h))
       else Some (Inr (holding h0 cur))) = Some (Inr (holding h0 cur2))
      \<and> advances h0 rk cur cur2 \<and> Ref (h0 (cur2 a)) = [] \<and> rk (cur2 a) \<le> n"
  proof (cases "Ref (h0 (cur a)) = []")
    case True
    then show ?thesis
      using Suc.prems(2) advances_refl [of h0 rk cur]
      by (intro exI [of _ cur]) (simp add: holding_apply)
  next
    case False
    let ?y = "cur a"
    let ?parts = "Split (Ref (h0 ?y))"
    from R False obtain t where
      wk: "walk schemas h0 reference (CtxSchema (Some ?y)) ?parts = Inr (CtxSchema (Some t))"
      and lt: "rk t < rk ?y"
      and sol: "\<forall>x \<in> set (visited schemas h0 reference (CtxSchema (Some ?y)) ?parts). Ref (h0 x) = []"
      unfolding resolvable_def by blast
    have ny: "?y \<notin> set (visited schemas h0 reference (CtxSchema (Some ?y)) ?parts)"
      using sol False by blast
    have nt: "CtxSchema (Some t) \<noteq> CtxSchema (Some ?y)" using lt by auto
    from walk_start [OF wk ny nt, of a] have
      wa: "walk schemas h0 reference (CtxSchema (Some a)) ?parts = Inr (CtxSchema (Some t))"
      and va: "visited schemas h0 reference (CtxSchema (Some a)) ?parts
               = visited schemas h0 reference (CtxSchema (Some ?y)) ?parts"
      by simp_all
    have same: "\<forall>x \<in> set (visited schemas h0 reference (CtxSchema (Some a)) ?parts).
                  holding h0 cur x = h0 x"
    proof
      fix x
      assume "x \<in> set (visited schemas h0 reference (CtxSchema (Some a)) ?parts)"
      then have "Ref (h0 x) = []" using sol unfolding va by blast
      then have "cur x = x" by (rule within_solid [OF w])
      then show "holding h0 cur x = h0 x" by (simp add: holding_def)
    qed
    have wh: "walk schemas (holding h0 cur) reference (CtxSchema (Some a)) ?parts
              = Inr (CtxSchema (Some t))"
      using walk_same [OF same] wa by simp
    let ?c1 = "cur (a := cur t)"
    have asg: "assign (holding h0 cur) a (CtxSchema (Some t)) = Inr (holding h0 ?c1)"
      by (simp add: assign_def holding_upd)
    have le: "rk (cur t) \<le> rk t" by (rule within_rank [OF w])
    have a1: "advances h0 rk cur ?c1"
      using le lt False by (simp add: advances_def)
    have w1: "within h0 rk ?c1" by (rule advances_within [OF w a1])
    have "rk (?c1 a) < n" using le lt Suc.prems(2) by simp
    from Suc.IH [OF w1 this] obtain cur2 where
      r: "resolveRefs n schemas reference a (holding h0 ?c1) = Some (Inr (holding h0 cur2))"
      and a2: "advances h0 rk ?c1 cur2" and e2: "Ref (h0 (cur2 a)) = []"
      by blast
    have "rk (cur2 a) \<le> n"
      using advances_rank [OF a2, of a] le lt Suc.prems(2) by simp
    moreover have "Ref (holding h0 cur a) \<noteq> []" using False by (simp add: holding_apply)
    moreover have "Ref (holding h0 cur a) = Ref (h0 ?y)" by (simp add: holding_apply)
    ultimately show ?thesis
      using wh asg r e2 advances_trans [OF a1 a2]
      by (intro exI [of _ cur2]) (simp del: fun_upd_apply)
  qed
  then obtain cur2 where
    f: "(if Ref (holding h0 cur a) \<noteq> [] then
         (case walk schemas (holding h0 cur) reference (CtxSchema (Some a))
                 (Split (Ref (holding h0 cur a))) of
            Inl e \<Rightarrow> Some (Inl e)
          | Inr c \<Rightarrow>
              (case assign (holding h0 cur) a c of
                 Inl e \<Rightarrow> Some (Inl e)
               | Inr h \<Rightarrow> resolveRefs n schemas reference a h))
       else Some (Inr (holding h0 cur))) = Some (Inr (holding h0 cur2))"
    and a2: "advances h0 rk cur cur2" and e2: "Ref (h0 (cur2 a)) = []"
    and n2: "rk (cur2 a) \<le> n"
    by blast
  have w2: "within h0 rk cur2" by (rule advances_within [OF w a2])
  have "\<exists>cur'. resolveChildren (resolveRefs n schemas reference) a (holding h0 cur2)
                 = Some (Inr (holding h0 cur')) \<and> advances h0 rk cur2 cur'"
  proof (rule resolveChildren_resolves [OF _ rkd w2 e2 n2])
    show "\<exists>cur'. resolveRefs n schemas reference a (holding h0 cur) = Some (Inr (holding h0 cur'))
               \<and> advances h0 rk cur cur'"
      if "within h0 rk cur" "rk (cur a) < n" for cur a
      using step [OF that] .
  qed
  then obtain cur3 where
    c: "resolveChildren (resolveRefs n schemas reference) a (holding h0 cur2)
        = Some (Inr (holding h0 cur3))"
    and a3: "advances h0 rk cur2 cur3"
    by blast
  have "cur3 a = cur2 a" by (rule advances_frame [OF a3 e2])
  with e2 have "Ref (h0 (cur3 a)) = []" by simp
  moreover have "resolveRefs (Suc n) schemas reference a (holding h0 cur)
                 = Some (Inr (holding h0 cur3))"
    unfolding resolveRefs_Suc f thenE_simps by (rule c)
  ultimately show ?case using advances_trans [OF a2 a3] by blast
qed


lemma chain_strings:
  "Split ''a#/definitions/X'' = [''a#'', ''definitions'', ''X'']"
  "Split ''a#/definitions/Y'' = [''a#'', ''definitions'', ''Y'']"
  "Split ''a#/definitions/Z'' = [''a#'', ''definitions'', ''Z'']"
  by code_simp+

lemma resolvable_alias: "resolvable [(''a'', 0)] ''a'' alias_rank alias_store"
  unfolding resolvable_def ranked_def
  by (auto simp: alias_store_def alias_rank_def children_def reads_def eval_defs chain_strings)

text \<open>
  Where resolution does return.  On a resolvable store, in which the rank of the node is at
  most \<open>N\<close>, \<^verbatim>\<open>resolveRefs\<close> returns within \<open>N + 1\<close> nested calls, without error, and the
  node has an empty reference afterwards; nodes that had no reference are unchanged, and every
  node holds the content that some node of no greater rank had when the store was loaded.  In
  \<^const>\<open>alias_store\<close> the chain of depth two from the definition \<^verbatim>\<open>X\<close> resolves in this way.
\<close>

lemma resolveRefs_terminates:
  assumes "resolvable schemas reference rk h" and "rk a \<le> N"
  shows "\<exists>h'. resolveRefs (Suc N) schemas reference a h = Some (Inr h') \<and> Ref (h' a) = []
          \<and> (\<forall>x. Ref (h x) = [] \<longrightarrow> h' x = h x)
          \<and> (\<forall>x. \<exists>y. h' x = h y \<and> rk y \<le> rk x)"
proof -
  have w: "within h rk (\<lambda>x. x)" by (simp add: within_def)
  have "rk a < Suc N" using assms(2) by simp
  from resolveRefs_resolves [OF assms(1) w this] obtain cur where
    r: "resolveRefs (Suc N) schemas reference a (holding h (\<lambda>x. x)) = Some (Inr (holding h cur))"
    and a: "advances h rk (\<lambda>x. x) cur" and e: "Ref (h (cur a)) = []"
    by blast
  have "\<forall>x. Ref (h x) = [] \<longrightarrow> holding h cur x = h x"
    using advances_frame [OF a] by (simp add: holding_def)
  moreover have "\<forall>x. \<exists>y. holding h cur x = h y \<and> rk y \<le> rk x"
    using advances_rank [OF a] by (auto simp: holding_def)
  moreover have "Ref (holding h cur a) = []" using e by (simp add: holding_def)
  ultimately show ?thesis using r unfolding holding_id by blast
qed

lemma alias_chain_resolves:
  "resolvable [(''a'', 0)] ''a'' alias_rank alias_store \<and> alias_rank 1 \<le> 3
   \<and> (\<exists>h'. resolveRefs (Suc 3) [(''a'', 0)] ''a'' 1 alias_store = Some (Inr h')
          \<and> Ref (h' 1) = [] \<and> h' 1 = alias_store 3 \<and> h' 2 = alias_store 2)"
proof -
  have k: "alias_rank 1 \<le> 3" by (simp add: alias_rank_def)
  obtain h' where r: "resolveRefs (Suc 3) [(''a'', 0)] ''a'' 1 alias_store = Some (Inr h')"
    and e: "Ref (h' 1) = []"
    using resolveRefs_terminates [OF resolvable_alias k] by blast
  have "resolveRefs (Suc 3) [(''a'', 0)] ''a'' 1 alias_store
        = Some (Inr (alias_store (1 := alias_store 3)))"
    by (simp add: numeral_3_eq_3 alias_store_def eval_defs chain_strings cong: eval_congs)
  with r have "h' = alias_store (1 := alias_store 3)" by simp
  then have "h' 1 = alias_store 3" "h' 2 = alias_store 2" by simp_all
  with r e resolvable_alias k show ?thesis by blast
qed

text \<open>
  Claim C2 says that on every acyclic reference chain of bounded depth \<^verbatim>\<open>resolveRefs\<close>
  terminates and leaves the node with an empty reference.  In \<^const>\<open>chain_store\<close> the root
  refers to its definition \<^verbatim>\<open>X\<close>, which refers to the definition \<^verbatim>\<open>Y\<close>, a string: a chain
  of depth two without a cycle in the loaded store.  The first copy \<^verbatim>\<open>*schema = *cast\<close>
  overwrites the root, its definitions included, with the content of \<^verbatim>\<open>X\<close>; the walk of the
  recursive call on the same node starts at that root again, finds no definition \<^verbatim>\<open>Y\<close>, and
  ends in the nil pointer of type \<^verbatim>\<open>*Schema\<close>, which the copy dereferences.  So
  \<^verbatim>\<open>resolveRefs\<close> panics, whatever the depth allowed beyond the three calls it takes to get
  there.
\<close>

theorem C2_root_chain_panics:
  "spec_chain 2 [(''a'', 0)] chain_store ''a'' 0
   \<and> resolveRefs (Suc (Suc (Suc n))) [(''a'', 0)] ''a'' 0 chain_store = Some (Inl NilDereference)"
  by (simp add: numeral_2_eq_2 chain_store_def eval_defs chain_strings cong: eval_congs)

section \<open>Arrays of strings\<close>

lemma boundary_words_all_alnum: "\<forall>c \<in> set (spec_boundary_words b s). isAlnum c"
  by (induction s arbitrary: b) (auto simp: toUpper_alnum)

lemma caseName_alnum: "\<forall>c \<in> set (caseName name). isAlnum c"
  by (simp add: caseName_boundary boundary_words_all_alnum)

lemma ToUpper_acronym_alnum:
  "x \<in> set [''Id'', ''Url'', ''Json'', ''Xml''] \<Longrightarrow> \<forall>c \<in> set (ToUpper x). isAlnum c"
proof -
  have "\<forall>x \<in> set [''Id'', ''Url'', ''Json'', ''Xml'']. \<forall>c \<in> set (ToUpper x). isAlnum c"
    by code_simp
  then show "x \<in> set [''Id'', ''Url'', ''Json'', ''Xml''] \<Longrightarrow> \<forall>c \<in> set (ToUpper x). isAlnum c"
    by blast
qed

lemma find_in_set: "find P xs = Some x \<Longrightarrow> x \<in> set xs"
  by (induction xs) (auto split: if_splits)

lemma camelCase_alnum: "\<forall>c \<in> set (camelCase name). isAlnum c"
proof -
  let ?cn = "caseName name"
  have t: "set (TrimSuffix ?cn x) \<subseteq> set ?cn" "set (TrimPrefix ?cn x) \<subseteq> set ?cn" for x
    by (auto simp: TrimSuffix_def TrimPrefix_def dest: in_set_takeD in_set_dropD)
  show ?thesis
  proof (cases "find (HasSuffix ?cn) [''Id'', ''Url'', ''Json'', ''Xml'']")
    case (Some sfx)
    then have "sfx \<in> set [''Id'', ''Url'', ''Json'', ''Xml'']"
      by (rule find_in_set)
    from ToUpper_acronym_alnum [OF this] t(1) [of sfx] caseName_alnum [of name] Some
    show ?thesis by (auto simp: camelCase_def)
  next
    case None
    show ?thesis
    proof (cases "find (HasPrefix ?cn) [''Url'', ''Json'', ''Xml'']")
      case (Some pfx)
      then have "pfx \<in> set [''Url'', ''Json'', ''Xml'']"
        by (rule find_in_set)
      then have "pfx \<in> set [''Id'', ''Url'', ''Json'', ''Xml'']" by auto
      from ToUpper_acronym_alnum [OF this] t(2) [of pfx] caseName_alnum [of name] Some None
      show ?thesis by (auto simp: camelCase_def)
    next
      case N: None
      with None caseName_alnum [of name] show ?thesis by (simp add: camelCase_def)
    qed
  qed
qed

lemma camelCase_no_star: "TrimPrefix (camelCase name) ''*'' = camelCase name"
proof (cases "camelCase name")
  case Nil
  then show ?thesis by (simp add: TrimPrefix_def)
next
  case (Cons c cs)
  with camelCase_alnum [of name] have "isAlnum c" by simp
  then have "c \<noteq> CHR ''*''" by (auto simp: isAlnum_def)
  with Cons show ?thesis by (simp add: TrimPrefix_def HasPrefix_def)
qed


lemma confined_refl: "confined S h h"
  by (simp add: confined_def)

lemma confined_trans: "confined S h h1 \<Longrightarrow> confined S h1 h2 \<Longrightarrow> confined S h h2"
  by (simp add: confined_def)

lemma confined_mono: "confined S h h' \<Longrightarrow> S \<subseteq> T \<Longrightarrow> confined T h h'"
  by (auto simp: confined_def)

lemma confined_apply: "confined S h h' \<Longrightarrow> x \<notin> S \<Longrightarrow> h' x = h x"
  by (simp add: confined_def)

lemma grows_reach: "grows h h' \<Longrightarrow> reach h' a = reach h a"
  using same_shape_reach [OF grows_shape] .

lemma confined_titleFromKey: "confined (reach h v) h (titleFromKey k v h)"
  by (auto simp: confined_def titleFromKey_def reach.self)

lemma forEachO_setTitle_confined:
  assumes step: "\<And>v h c h' c'. setTitle n r v (h, c) = Some (h', c')
                   \<Longrightarrow> confined (reach h v) h h' \<and> c \<le> c'"
  shows "forEachO (\<lambda>(k, v) (h, c). setTitle n r v (titleFromKey k v h, c)) kvs s = Some s'
         \<Longrightarrow> confined (\<Union>v \<in> snd ` set kvs. reach (fst s) v) (fst s) (fst s') \<and> snd s \<le> snd s'"
proof (induction kvs arbitrary: s)
  case Nil
  then show ?case by (simp add: confined_refl)
next
  case (Cons kv kvs)
  let ?F = "\<lambda>(k, v) (h, c). setTitle n r v (titleFromKey k v h, c)"
  obtain k v h0 c0 where e: "kv = (k, v)" "s = (h0, c0)" by (cases kv, cases s) auto
  from Cons.prems e obtain h1 c1 where
    t: "setTitle n r v (titleFromKey k v h0, c0) = Some (h1, c1)"
    and rest: "forEachO ?F kvs (h1, c1) = Some s'"
    by (auto split: option.splits)
  have g0: "grows h0 (titleFromKey k v h0)" by (rule grows_titleFromKey)
  have g1: "grows h0 h1" by (rule grows_trans [OF g0 setTitle_grows [OF t]])
  have r1: "reach h1 x = reach h0 x" for x by (rule grows_reach [OF g1])
  have a: "confined (reach h0 v) h0 (titleFromKey k v h0)" by (rule confined_titleFromKey)
  have b: "confined (reach h0 v) (titleFromKey k v h0) h1" and b': "c0 \<le> c1"
    using step [OF t] grows_reach [OF g0, of v] by simp_all
  have c: "confined (\<Union>v \<in> snd ` set kvs. reach h0 v) h1 (fst s')" and c': "c1 \<le> snd s'"
    using Cons.IH [OF rest] by (simp_all add: r1)
  let ?S = "\<Union>v \<in> snd ` set (kv # kvs). reach h0 v"
  have "confined ?S h0 h1"
    by (rule confined_mono [OF confined_trans [OF a b]]) (auto simp: e)
  moreover have "confined ?S h1 (fst s')"
    by (rule confined_mono [OF c]) auto
  ultimately have "confined ?S h0 (fst s')" by (rule confined_trans)
  with b' c' e show ?case by simp
qed

lemma reach_children: "c \<in> set (children (h a)) \<Longrightarrow> reach h c \<subseteq> reach h a"
  by (subst (2) reach_unfold) auto

lemma setTitle_confined:
  "setTitle n r a (h, c) = Some (h', c') \<Longrightarrow> confined (reach h a) h h' \<and> c \<le> c'"
proof (induction n arbitrary: a h c h' c')
  case 0
  then show ?case by simp
next
  case (Suc n)
  let ?F = "\<lambda>(k, v) (h, c). setTitle n r v (titleFromKey k v h, c)"
  have L: "confined (\<Union>v \<in> snd ` set kvs. reach (fst s) v) (fst s) (fst s') \<and> snd s \<le> snd s'"
    if l: "forEachO ?F kvs s = Some s'" for kvs s s'
  proof (rule forEachO_setTitle_confined)
    show "forEachO ?F kvs s = Some s'" by (rule l)
    show "confined (reach h v) h h' \<and> c \<le> c'"
      if "setTitle n r v (h, c) = Some (h', c')" for v h c h' c'
      by (rule Suc.IH [OF that])
  qed
  from Suc.prems obtain s1 s2 s3 where
    1: "forEachO ?F (entries (Definitions (h a))) (h, c) = Some s1" and
    2: "forEachO ?F (entries (Properties (fst s1 a))) s1 = Some s2" and
    3: "forEachO ?F (entries (PatternProperties (fst s2 a))) s2 = Some s3" and
    4: "(case Items (fst s3 a) of None \<Rightarrow> Some s3
         | Some i \<Rightarrow> setTitle n r i (titleItems a i s3)) = Some (h', c')"
    by (auto simp: thenO_def split: option.splits)
  note g1 = forEachO_setTitle_grows [OF 1, simplified]
  note g2 = grows_trans [OF g1 forEachO_setTitle_grows [OF 2]]
  note g3 = grows_trans [OF g2 forEachO_setTitle_grows [OF 3]]
  note f1 = same_shape_fields [OF grows_shape [OF g1]]
  note f2 = same_shape_fields [OF grows_shape [OF g2]]
  note f3 = same_shape_fields [OF grows_shape [OF g3]]
  have sub: "(\<Union>v \<in> snd ` set kvs. reach h v) \<subseteq> reach h a"
    if "snd ` set kvs \<subseteq> set (children (h a))" for kvs
    using that reach_children [of _ h a] by blast
  have k1: "confined (reach h a) h (fst s1)" and n1: "c \<le> snd s1"
    using L [OF 1] confined_mono [OF _ sub [of "entries (Definitions (h a))"]]
    by (auto simp: children_def)
  have k2: "confined (reach h a) (fst s1) (fst s2)" and n2: "snd s1 \<le> snd s2"
    using L [OF 2] confined_mono [OF _ sub [of "entries (Properties (h a))"]] f1
    by (auto simp: children_def grows_reach [OF g1])
  have k3: "confined (reach h a) (fst s2) (fst s3)" and n3: "snd s2 \<le> snd s3"
    using L [OF 3] confined_mono [OF _ sub [of "entries (PatternProperties (h a))"]] f2
    by (auto simp: children_def grows_reach [OF g2])
  have "confined (reach h a) (fst s3) h' \<and> snd s3 \<le> c'"
  proof (cases "Items (fst s3 a)")
    case None
    with 4 show ?thesis by (auto simp: confined_refl)
  next
    case (Some i)
    obtain h3 c3 where s3: "s3 = (h3, c3)" by (cases s3)
    obtain h4 c4 where t: "titleItems a i (h3, c3) = (h4, c4)" by (cases "titleItems a i (h3, c3)")
    with 4 Some s3 have r: "setTitle n r i (h4, c4) = Some (h', c')" by simp
    have i: "i \<in> set (children (h a))" using Some f3(4) [of a] by (simp add: children_def)
    have ri: "reach h i \<subseteq> reach h a" using i by (rule reach_children [of i h a])
    have ia: "i \<in> reach h a" using ri reach.self [of i h] by blast
    have "confined {a, i} h3 h4 \<and> c3 \<le> c4"
      using t by (auto simp: titleItems_def Let_def confined_def split: if_splits)
    then have x: "confined (reach h a) h3 h4" and y: "c3 \<le> c4"
      using confined_mono [of "{a, i}" h3 h4 "reach h a"] ia reach.self [of a h] by auto
    have g4: "grows h h4" using g3 grows_titleItems [OF t] s3 by (auto intro: grows_trans)
    have "confined (reach h4 i) h4 h'" and z: "c4 \<le> c'" using Suc.IH [OF r] by simp_all
    then have "confined (reach h a) h4 h'"
      using confined_mono [of "reach h4 i" h4 h' "reach h a"] ri
      by (simp add: grows_reach [OF g4])
    with x y z s3 show ?thesis by (auto intro: confined_trans)
  qed
  with k1 k2 k3 n1 n2 n3 show ?case by (auto intro: confined_trans)
qed

lemma forEachO_setTitle_frame:
  assumes "forEachO (\<lambda>(k, v) (h, c). setTitle n r v (titleFromKey k v h, c)) kvs s = Some s'"
  shows "confined (\<Union>v \<in> snd ` set kvs. reach (fst s) v) (fst s) (fst s') \<and> snd s \<le> snd s'"
proof (rule forEachO_setTitle_confined)
  show "forEachO (\<lambda>(k, v) (h, c). setTitle n r v (titleFromKey k v h, c)) kvs s = Some s'"
    by (rule assms)
  show "confined (reach h v) h h' \<and> c \<le> c'"
    if "setTitle n r v (h, c) = Some (h', c')" for v h c h' c'
    by (rule setTitle_confined [OF that])
qed

lemma reach_rank: "x \<in> reach h v \<Longrightarrow> ranked rk h \<Longrightarrow> rk x \<le> rk v"
proof (induction rule: reach.induct)
  case self
  show ?case by simp
next
  case (step x c)
  then show ?case unfolding ranked_def by (meson le_trans less_imp_le_nat)
qed


lemma children_empty:
  assumes "children s = []"
  shows "entries (Definitions s) = []" "entries (Properties s) = []"
    "entries (PatternProperties s) = []" "Items s = None"
  using assms by (auto simp: children_def split: option.splits)

lemma setTitle_leaf: "children (h i) = [] \<Longrightarrow> setTitle (Suc m) r i (h, c) = Some (h, c)"
  by (simp add: children_empty)

lemma array_of_strings_named:
  assumes rk: "ranked rk h"
    and it: "Items (h a) = Some i" and ne: "a \<noteq> i"
    and ni: "Name (h i) = []" and li: "children (h i) = []"
    and ap: "\<forall>v \<in> snd ` set (entries (Definitions (h a)) @ entries (Properties (h a))
                 @ entries (PatternProperties (h a))). i \<notin> reach h v"
  shows "\<exists>h' c' c3. setTitle (Suc (rk a)) reference a (h, c) = Some (h', c')
          \<and> c \<le> c3 \<and> (children (h a) = [i] \<longrightarrow> c3 = c)
          \<and> c' = (if Name (h a) = [] then c3 + 1 else c3)
          \<and> h' a = (if Name (h a) = [] then (h a)\<lparr>Title := anonymousName c'\<rparr> else h a)
          \<and> h' i = (h i)\<lparr>Title := Name (h' a) @ ''Item''\<rparr>"
proof -
  let ?F = "\<lambda>(k, v) (h, c). setTitle (rk a) reference v (titleFromKey k v h, c)"
  have "rk a < Suc (rk a)" by simp
  from setTitle_returns [OF rk this] obtain h' c' where
    run: "setTitle (Suc (rk a)) reference a (h, c) = Some (h', c')" by blast
  then obtain s1 s2 s3 where
    1: "forEachO ?F (entries (Definitions (h a))) (h, c) = Some s1" and
    2: "forEachO ?F (entries (Properties (fst s1 a))) s1 = Some s2" and
    3: "forEachO ?F (entries (PatternProperties (fst s2 a))) s2 = Some s3" and
    4: "(case Items (fst s3 a) of None \<Rightarrow> Some s3
         | Some i \<Rightarrow> setTitle (rk a) reference i (titleItems a i s3)) = Some (h', c')"
    by (auto simp: thenO_def split: option.splits)
  note g1 = forEachO_setTitle_grows [OF 1, simplified]
  note g2 = grows_trans [OF g1 forEachO_setTitle_grows [OF 2]]
  note g3 = grows_trans [OF g2 forEachO_setTitle_grows [OF 3]]
  note f1 = same_shape_fields [OF grows_shape [OF g1]]
  note f2 = same_shape_fields [OF grows_shape [OF g2]]
  note f3 = same_shape_fields [OF grows_shape [OF g3]]
  obtain h3 c3 where s3: "s3 = (h3, c3)" by (cases s3)
  have out: "a \<notin> reach h v \<and> i \<notin> reach h v"
    if "v \<in> snd ` set (entries (Definitions (h a)) @ entries (Properties (h a))
                 @ entries (PatternProperties (h a)))" for v
  proof -
    have "v \<in> set (children (h a))" using that by (auto simp: children_def)
    then have "rk v < rk a" using rk by (simp add: ranked_def)
    then have "a \<notin> reach h v" using reach_rank [of a h v rk] rk by auto
    with ap that show ?thesis by blast
  qed
  have k1: "fst s1 a = h a \<and> fst s1 i = h i" and n1: "c \<le> snd s1"
    using forEachO_setTitle_frame [OF 1] out by (auto simp: confined_def)
  have k2: "fst s2 a = fst s1 a \<and> fst s2 i = fst s1 i" and n2: "snd s1 \<le> snd s2"
    using forEachO_setTitle_frame [OF 2] out f1 by (auto simp: confined_def grows_reach [OF g1])
  have k3: "fst s3 a = fst s2 a \<and> fst s3 i = fst s2 i" and n3: "snd s2 \<le> snd s3"
    using forEachO_setTitle_frame [OF 3] out f2 by (auto simp: confined_def grows_reach [OF g2])
  have h3: "h3 a = h a" "h3 i = h i" and c3: "c \<le> c3"
    using k1 k2 k3 n1 n2 n3 s3 by auto
  have flat: "c3 = c" if "children (h a) = [i]"
  proof -
    have e: "entries (Definitions (h a)) = []" "entries (Properties (h a)) = []"
      "entries (PatternProperties (h a)) = []"
      using that it by (auto simp: children_def)
    from 1 e have "s1 = (h, c)" by simp
    with 2 e have "s2 = (h, c)" by simp
    with 3 e have "s3 = (h, c)" by simp
    with s3 show ?thesis by simp
  qed
  have "i \<in> set (children (h a))" using it by (simp add: children_def)
  then have "rk i < rk a" using rk by (simp add: ranked_def)
  then obtain m where m: "rk a = Suc m" by (cases "rk a") auto
  obtain h4 c4 where t: "titleItems a i (h3, c3) = (h4, c4)" by (cases "titleItems a i (h3, c3)")
  have t4: "c4 = (if Name (h a) = [] then c3 + 1 else c3)"
    "h4 a = (if Name (h a) = [] then (h a)\<lparr>Title := anonymousName c4\<rparr> else h a)"
    "h4 i = (h i)\<lparr>Title := Name (h4 a) @ ''Item''\<rparr>"
    using t h3 ni ne by (auto simp: titleItems_def Let_def split: if_splits)
  have "children (h4 i) = []" using li t4(3) by (simp add: children_def)
  then have "setTitle (rk a) reference i (h4, c4) = Some (h4, c4)"
    unfolding m by (rule setTitle_leaf)
  with 4 s3 t h3 it have "h' = h4" "c' = c4" by simp_all
  with run t4 c3 flat show ?thesis by blast
qed


lemma array_of_strings_synthesis:
  assumes "Type (h a) = ARRAY" and "Items (h a) = Some i" and "Type (h i) = STRING"
  shows "processSchema (Suc (Suc n)) s ev h (Some a) st =
           (if camelCase (Name (h a)) = [] then Some (Inr ''[]string'', st)
            else afterWrite (camelCase (Name (h a)))
                   (writeGoCode s ev (camelCase (Name (h a)))
                      (structComment s ev h a (camelCase (Name (h a))) @ ''type ''
                       @ camelCase (Name (h a)) @ '' []string'' @ nl @ nl) st))"
  using assms Title_string by (simp add: Let_def camelCase_no_star)

lemma tags_strings:
  "camelCase ''tags'' = ''Tags''" "camelCase ''doc'' = ''Doc''" "camelCase ''-'' = []"
  "Split ''doc.json'' = [''doc.json'']" "Split ''tags.json'' = [''tags.json'']"
  "sort [''tags''] = [''tags'']"
  by code_simp+

text \<open>
  Claim C7 as stated fails on both one-document inputs.  In \<^const>\<open>array_store\<close> the root is
  an array without title or id whose items are \<^verbatim>\<open>{"type":"string"}\<close>: name assignment names
  it \<^verbatim>\<open>AnonymousObject1\<close>, and synthesis writes a declaration for it.  In \<^const>\<open>tags_store\<close>
  such an array is the property \<^verbatim>\<open>tags\<close> of the root: name assignment names it after its
  key, and synthesis writes the declaration \<^verbatim>\<open>type Tags []string\<close> before that of the root.
\<close>

theorem C7_pipeline_counterexample:
  "outcome (LoadAndProcess (Suc (Suc 0)) toStdout plainEnv [(''tags.json'', 0)] array_store)
   = Some (None, [Print (''type AnonymousObject1 []string'' @ nl @ nl)])
   \<and> outcome (LoadAndProcess (Suc (Suc (Suc 0))) toStdout plainEnv [(''doc.json'', 0)] tags_store)
   = Some (None, [Print (''type Tags []string'' @ nl @ nl), Print doc_decl])"
proof -
  have 1: "outcome (LoadAndProcess (Suc (Suc 0)) toStdout plainEnv [(''tags.json'', 0)] array_store)
           = Some (None, [Print (''type AnonymousObject1 []string'' @ nl @ nl)])"
    by (simp add: array_store_def eval_defs anonymousName_1 Title_string
        camelCase_anonymous [of "Suc 0", unfolded anonymousName_1] TrimPrefix_def HasPrefix_def
        cong: eval_congs)
  have 2: "outcome (LoadAndProcess (Suc (Suc (Suc 0))) toStdout plainEnv [(''doc.json'', 0)] tags_store)
           = Some (None, [Print (''type Tags []string'' @ nl @ nl), Print doc_decl])"
    by (simp add: tags_store_def doc_decl_def eval_defs tags_strings Title_string
        TrimPrefix_def HasPrefix_def cong: eval_congs)
  from 1 2 show ?thesis by blast
qed

text \<open>
  Claim C7, amended.  Let the store have bounded depth, and let \<open>a\<close> be an array whose items
  \<open>i\<close> are a string schema without name or children that none of the definitions, properties
  and pattern properties of \<open>a\<close> leads to.  The caller of \<^verbatim>\<open>setTitle\<close> for \<open>a\<close> has written
  the title \<open>k\<close> if \<open>a\<close> had no name: the key under which a map holds \<open>a\<close>, or the name of an
  array followed by \<^verbatim>\<open>Item\<close> if \<open>a\<close> is its items; for a root nothing is written, which is
  the case of the empty \<open>k\<close>.  Then \<^verbatim>\<open>setTitle\<close> returns, and \<open>a\<close> has a name that is not
  empty: the name it had (its title, else its id), else \<open>k\<close> if \<open>k\<close> is not empty, else
  \<^verbatim>\<open>AnonymousObject\<close> followed by the value that the counter has afterwards, which is greater
  than before (by one if \<open>a\<close> has no child but its items); the items are titled with that name
  followed by \<^verbatim>\<open>Item\<close>.  Synthesis in the resulting store returns the inline type
  \<^verbatim>\<open>[]string\<close> and leaves the output state as it is only if the name canonicalizes to the
  empty identifier; otherwise it requests the declaration of the canonicalized name as
  \<^verbatim>\<open>[]string\<close> and returns what the emission returns.
\<close>

theorem C7_array_of_strings:
  assumes rk: "ranked rk h"
    and ty: "Type (h a) = ARRAY" and it: "Items (h a) = Some i"
    and si: "Type (h i) = STRING" and ni: "Name (h i) = []" and li: "children (h i) = []"
    and ap: "\<forall>v \<in> snd ` set (entries (Definitions (h a)) @ entries (Properties (h a))
                 @ entries (PatternProperties (h a))). i \<notin> reach h v"
  shows "titleFromKey [] a h = h
    \<and> (\<exists>h' c'. setTitle (Suc (rk a)) reference a (titleFromKey k a h, c) = Some (h', c')
         \<and> (let name = (if Name (h a) \<noteq> [] then Name (h a)
                         else if k \<noteq> [] then k else anonymousName c');
                typeName = camelCase name
            in name \<noteq> [] \<and> Name (h' a) = name
             \<and> h' a = (if Name (h a) \<noteq> [] then h a else (h a)\<lparr>Title := name\<rparr>)
             \<and> h' i = (h i)\<lparr>Title := name @ ''Item''\<rparr>
             \<and> c \<le> c' \<and> (Name (h a) = [] \<and> k = [] \<longrightarrow> c < c')
             \<and> (children (h a) = [i] \<longrightarrow> c' = (if Name (h a) = [] \<and> k = [] then c + 1 else c))
             \<and> processSchema (Suc (Suc n)) s ev h' (Some a) st =
                 (if typeName = [] then Some (Inr ''[]string'', st)
                  else afterWrite typeName
                         (writeGoCode s ev typeName
                            (structComment s ev h' a typeName @ ''type '' @ typeName
                             @ '' []string'' @ nl @ nl) st))))"
proof -
  let ?h = "titleFromKey k a h"
  have ne: "a \<noteq> i" using ty si by auto
  have root: "titleFromKey [] a h = h" by (simp add: titleFromKey_fix)
  have g: "grows h ?h" by (rule grows_titleFromKey)
  have rk': "ranked rk ?h" using grows_ranked [OF g rk] .
  have same: "?h x = h x" if "x \<noteq> a" for x using that by (simp add: titleFromKey_def)
  have ha: "?h a = (if Name (h a) \<noteq> [] then h a else (h a)\<lparr>Title := k\<rparr>)"
    by (simp add: titleFromKey_def)
  have na: "Name (?h a) = (if Name (h a) \<noteq> [] then Name (h a) else k)"
    by (auto simp: titleFromKey_def Name_def split: if_splits)
  have fa: "Definitions (?h a) = Definitions (h a)" "Properties (?h a) = Properties (h a)"
    "PatternProperties (?h a) = PatternProperties (h a)" "Items (?h a) = Items (h a)"
    "children (?h a) = children (h a)"
    using same_shape_fields [OF grows_shape [OF g], of a] same_shape_children [OF grows_shape [OF g], of a]
    by simp_all
  have ap': "\<forall>v \<in> snd ` set (entries (Definitions (?h a)) @ entries (Properties (?h a))
                 @ entries (PatternProperties (?h a))). i \<notin> reach ?h v"
    using ap unfolding fa grows_reach [OF g] .
  have it': "Items (?h a) = Some i" using it fa by simp
  have ni': "Name (?h i) = []" and li': "children (?h i) = []"
    using ni li same [of i] ne by simp_all
  from array_of_strings_named [OF rk' it' ne ni' li' ap', of reference c]
  obtain h' c' c3 where
    run: "setTitle (Suc (rk a)) reference a (?h, c) = Some (h', c')"
    and c3: "c \<le> c3" "children (?h a) = [i] \<longrightarrow> c3 = c"
    and c': "c' = (if Name (?h a) = [] then c3 + 1 else c3)"
    and a': "h' a = (if Name (?h a) = [] then (?h a)\<lparr>Title := anonymousName c'\<rparr> else ?h a)"
    and i': "h' i = (?h i)\<lparr>Title := Name (h' a) @ ''Item''\<rparr>"
    by blast
  let ?name = "if Name (h a) \<noteq> [] then Name (h a) else if k \<noteq> [] then k else anonymousName c'"
  have n1: "?name \<noteq> []" by (simp add: anonymousName_nonempty)
  have a2: "h' a = (if Name (h a) \<noteq> [] then h a else (h a)\<lparr>Title := ?name\<rparr>)"
    using a' ha na by (auto simp: Name_def)
  have n2: "Name (h' a) = ?name"
    using a2 n1 by (auto simp: Name_def split: if_splits)
  have i2: "h' i = (h i)\<lparr>Title := ?name @ ''Item''\<rparr>"
    using i' n2 same [of i] ne by simp
  have c1: "c \<le> c'" "Name (h a) = [] \<and> k = [] \<longrightarrow> c < c'"
    "children (h a) = [i] \<longrightarrow> c' = (if Name (h a) = [] \<and> k = [] then c + 1 else c)"
    using c3 c' na fa(5) by auto
  have t': "Type (h' a) = ARRAY" "Items (h' a) = Some i" "Type (h' i) = STRING"
    using a2 i2 ty it si by (auto split: if_splits)
  note p = array_of_strings_synthesis [OF t', of n s ev st, unfolded n2]
  show ?thesis unfolding Let_def using root run n1 n2 a2 i2 c1 p by blast
qed

theorem C7_array_of_strings_witness:
  "ranked tags_rank tags_store
   \<and> Type (tags_store 1) = ARRAY \<and> Items (tags_store 1) = Some 2
   \<and> Type (tags_store 2) = STRING \<and> Name (tags_store 2) = [] \<and> children (tags_store 2) = []
   \<and> snd ` set (entries (Definitions (tags_store 1)) @ entries (Properties (tags_store 1))
                 @ entries (PatternProperties (tags_store 1))) = {3}
   \<and> 2 \<notin> reach tags_store 3
   \<and> (\<exists>h' c'. setTitle (Suc (tags_rank 1)) [] 1 (titleFromKey ''tags'' 1 tags_store, 0) = Some (h', c')
         \<and> Name (h' 1) = ''tags'' \<and> Title (h' 2) = ''tagsItem''
         \<and> processSchema (Suc (Suc 0)) toStdout plainEnv h' (Some 1) \<lparr>processed = Map.empty, events = []\<rparr>
             = Some (Inr ''Tags'', \<lparr>processed = [''Tags'' \<mapsto> True],
                                     events = [Print (''type Tags []string'' @ nl @ nl)]\<rparr>))
   \<and> (\<exists>h' c'. setTitle (Suc (tags_rank 1)) [] 1 (titleFromKey ''-'' 1 tags_store, 0) = Some (h', c')
         \<and> Name (h' 1) = ''-''
         \<and> processSchema (Suc (Suc 0)) toStdout plainEnv h' (Some 1) \<lparr>processed = Map.empty, events = []\<rparr>
             = Some (Inr ''[]string'', \<lparr>processed = Map.empty, events = []\<rparr>))
   \<and> ranked root_rank array_store
   \<and> Type (array_store 0) = ARRAY \<and> Items (array_store 0) = Some 1
   \<and> Type (array_store 1) = STRING \<and> Name (array_store 1) = [] \<and> children (array_store 1) = []
   \<and> Name (array_store 0) = [] \<and> children (array_store 0) = [1]
   \<and> (\<exists>h' c'. setTitle (Suc (root_rank 0)) [] 0 (titleFromKey [] 0 array_store, 0) = Some (h', c')
         \<and> c' = 1 \<and> Name (h' 0) = ''AnonymousObject1'' \<and> Title (h' 1) = ''AnonymousObject1Item''
         \<and> processSchema (Suc (Suc 0)) toStdout plainEnv h' (Some 0) \<lparr>processed = Map.empty, events = []\<rparr>
             = Some (Inr ''AnonymousObject1'', \<lparr>processed = [''AnonymousObject1'' \<mapsto> True],
                  events = [Print (''type AnonymousObject1 []string'' @ nl @ nl)]\<rparr>))"
proof -
  let ?st = "\<lparr>processed = Map.empty, events = []\<rparr>"
  have r: "ranked tags_rank tags_store"
    by (auto simp: ranked_def tags_rank_def tags_store_def children_def eval_defs)
  have ty: "Type (tags_store 1) = ARRAY" and it: "Items (tags_store 1) = Some 2"
    and si: "Type (tags_store 2) = STRING" and ni: "Name (tags_store 2) = []"
    and li: "children (tags_store 2) = []" and n1: "Name (tags_store 1) = []"
    by (simp_all add: tags_store_def children_def eval_defs)
  have r3: "reach tags_store 3 = {3}"
    by (subst reach_unfold) (simp add: tags_store_def children_def eval_defs)
  have ap: "\<forall>v \<in> snd ` set (entries (Definitions (tags_store 1)) @ entries (Properties (tags_store 1))
                 @ entries (PatternProperties (tags_store 1))). 2 \<notin> reach tags_store v"
    using r3 by (simp add: tags_store_def eval_defs)
  have w: "writeGoCode toStdout plainEnv ''Tags'' (''type Tags []string'' @ nl @ nl) ?st
           = (None, \<lparr>processed = [''Tags'' \<mapsto> True], events = [Print (''type Tags []string'' @ nl @ nl)]\<rparr>)"
    by (simp add: eval_defs)
  have A: "\<exists>h' c'. setTitle (Suc (tags_rank 1)) [] 1 (titleFromKey ''tags'' 1 tags_store, 0) = Some (h', c')
         \<and> Name (h' 1) = ''tags'' \<and> Title (h' 2) = ''tagsItem''
         \<and> processSchema (Suc (Suc 0)) toStdout plainEnv h' (Some 1) ?st
             = Some (Inr ''Tags'', \<lparr>processed = [''Tags'' \<mapsto> True],
                                     events = [Print (''type Tags []string'' @ nl @ nl)]\<rparr>)"
  proof -
    from C7_array_of_strings [OF r ty it si ni li ap, where k = "''tags''" and reference = "[]" and c = 0
        and n = 0 and s = toStdout and ev = plainEnv and st = ?st]
    obtain h' c' where
      run: "setTitle (Suc (tags_rank 1)) [] 1 (titleFromKey ''tags'' 1 tags_store, 0) = Some (h', c')"
      and nm: "Name (h' 1) = ''tags''"
      and i: "h' 2 = (tags_store 2)\<lparr>Title := ''tags'' @ ''Item''\<rparr>"
      and p: "processSchema (Suc (Suc 0)) toStdout plainEnv h' (Some 1) ?st
              = afterWrite ''Tags'' (writeGoCode toStdout plainEnv ''Tags''
                  (structComment toStdout plainEnv h' 1 ''Tags'' @ ''type '' @ ''Tags''
                   @ '' []string'' @ nl @ nl) ?st)"
      unfolding Let_def n1 by (auto simp del: setTitle.simps processSchema.simps simp: tags_strings)
    have "structComment toStdout plainEnv h' 1 ''Tags'' = []"
      by (simp add: structComment_def toStdout_def)
    with p w have "processSchema (Suc (Suc 0)) toStdout plainEnv h' (Some 1) ?st
             = Some (Inr ''Tags'', \<lparr>processed = [''Tags'' \<mapsto> True],
                                     events = [Print (''type Tags []string'' @ nl @ nl)]\<rparr>)"
      by (simp add: afterWrite_def del: processSchema.simps)
    moreover have "Title (h' 2) = ''tagsItem''" using i by simp
    ultimately show ?thesis using run nm by blast
  qed
  have B: "\<exists>h' c'. setTitle (Suc (tags_rank 1)) [] 1 (titleFromKey ''-'' 1 tags_store, 0) = Some (h', c')
         \<and> Name (h' 1) = ''-''
         \<and> processSchema (Suc (Suc 0)) toStdout plainEnv h' (Some 1) ?st = Some (Inr ''[]string'', ?st)"
  proof -
    from C7_array_of_strings [OF r ty it si ni li ap, where k = "''-''" and reference = "[]" and c = 0
        and n = 0 and s = toStdout and ev = plainEnv and st = ?st]
    obtain h' c' where
      run: "setTitle (Suc (tags_rank 1)) [] 1 (titleFromKey ''-'' 1 tags_store, 0) = Some (h', c')"
      and nm: "Name (h' 1) = ''-''"
      and p: "processSchema (Suc (Suc 0)) toStdout plainEnv h' (Some 1) ?st = Some (Inr ''[]string'', ?st)"
      unfolding Let_def n1 by (auto simp del: setTitle.simps processSchema.simps simp: tags_strings)
    then show ?thesis by blast
  qed
  have ch: "snd ` set (entries (Definitions (tags_store 1)) @ entries (Properties (tags_store 1))
                 @ entries (PatternProperties (tags_store 1))) = {3}"
    by (simp add: tags_store_def eval_defs)
  have r2: "2 \<notin> reach tags_store 3" using r3 by simp
  have ty0: "Type (array_store 0) = ARRAY" and it0: "Items (array_store 0) = Some 1"
    and si0: "Type (array_store 1) = STRING" and ni0: "Name (array_store 1) = []"
    and li0: "children (array_store 1) = []" and n0: "Name (array_store 0) = []"
    and c0: "children (array_store 0) = [1]"
    by (simp_all add: array_store_def children_def eval_defs)
  have C: "\<exists>h' c'. setTitle (Suc (root_rank 0)) [] 0 (titleFromKey [] 0 array_store, 0) = Some (h', c')
         \<and> c' = 1 \<and> Name (h' 0) = ''AnonymousObject1'' \<and> Title (h' 1) = ''AnonymousObject1Item''
         \<and> processSchema (Suc (Suc 0)) toStdout plainEnv h' (Some 0) ?st
             = Some (Inr ''AnonymousObject1'', \<lparr>processed = [''AnonymousObject1'' \<mapsto> True],
                  events = [Print (''type AnonymousObject1 []string'' @ nl @ nl)]\<rparr>)"
  proof -
    have ap0: "\<forall>v \<in> snd ` set (entries (Definitions (array_store 0)) @ entries (Properties (array_store 0))
                   @ entries (PatternProperties (array_store 0))). 1 \<notin> reach array_store v"
      by (simp add: array_store_def eval_defs)
    from C7_array_of_strings [OF ranked_array_store ty0 it0 si0 ni0 li0 ap0, where k = "[]"
        and reference = "[]" and c = 0 and n = 0 and s = toStdout and ev = plainEnv and st = ?st]
    obtain h' c' where
      run: "setTitle (Suc (root_rank 0)) [] 0 (titleFromKey [] 0 array_store, 0) = Some (h', c')"
      and c': "c' = 1"
      and nm: "Name (h' 0) = anonymousName c'"
      and i: "h' 1 = (array_store 1)\<lparr>Title := anonymousName c' @ ''Item''\<rparr>"
      and p: "processSchema (Suc (Suc 0)) toStdout plainEnv h' (Some 0) ?st
              = afterWrite (camelCase (anonymousName c'))
                  (writeGoCode toStdout plainEnv (camelCase (anonymousName c'))
                    (structComment toStdout plainEnv h' 0 (camelCase (anonymousName c')) @ ''type ''
                     @ camelCase (anonymousName c') @ '' []string'' @ nl @ nl) ?st)"
      unfolding Let_def n0 c0
      by (auto simp del: setTitle.simps processSchema.simps
          simp: camelCase_anonymous anonymousName_nonempty)
    have sc: "structComment toStdout plainEnv h' 0 x = []" for x
      by (simp add: structComment_def toStdout_def)
    have a1: "anonymousName c' = ''AnonymousObject1''" using c' anonymousName_1 by simp
    have "processSchema (Suc (Suc 0)) toStdout plainEnv h' (Some 0) ?st
          = Some (Inr ''AnonymousObject1'', \<lparr>processed = [''AnonymousObject1'' \<mapsto> True],
                    events = [Print (''type AnonymousObject1 []string'' @ nl @ nl)]\<rparr>)"
      unfolding p sc a1 by (simp add: eval_defs camelCase_anonymous [of "Suc 0", unfolded anonymousName_1])
    moreover have "Title (h' 1) = ''AnonymousObject1Item''" using i a1 by simp
    ultimately show ?thesis using run c' nm a1 by auto
  qed
  from r ty it si ni li ch r2 A B ranked_array_store ty0 it0 si0 ni0 li0 n0 c0 C
  show ?thesis by blast
qed

end
